theory Spec2Isabelle
  imports Complex_Main "HOL-Library.Multiset"
begin

section \<open>NumPy array primitives used by the declustering code\<close>

text \<open>
  Arrays are lists. A boolean mask is a \<open>bool list\<close> of the same length as the array
  it indexes. \<open>mask_select xs mask\<close> is \<open>xs[mask]\<close>, \<open>mask_assign xs mask vs\<close> is
  \<open>xs[mask] = vs\<close> with an array on the right (the values are consumed in order, one
  per selected position; in every use below there are exactly as many values as selected
  positions, the only case in which NumPy accepts the assignment), and
  \<open>mask_fill xs mask c\<close> is \<open>xs[mask] = c\<close> with a scalar on the right.
\<close>

fun mask_select :: "'a list \<Rightarrow> bool list \<Rightarrow> 'a list" where
  "mask_select (x # xs) (b # bs) = (if b then x # mask_select xs bs else mask_select xs bs)"
| "mask_select _ _ = []"

fun mask_assign :: "'a list \<Rightarrow> bool list \<Rightarrow> 'a list \<Rightarrow> 'a list" where
  "mask_assign (x # xs) (b # bs) vs =
     (if b then (case vs of v # vs' \<Rightarrow> v # mask_assign xs bs vs' | [] \<Rightarrow> x # mask_assign xs bs [])
      else x # mask_assign xs bs vs)"
| "mask_assign xs _ _ = xs"

definition mask_fill :: "'a list \<Rightarrow> bool list \<Rightarrow> 'a \<Rightarrow> 'a list" where
  "mask_fill xs bs c = map2 (\<lambda>x b. if b then c else x) xs bs"

text \<open>\<open>np.clip(a, a_min, a_max)\<close> is \<open>minimum(a_max, maximum(a, a_min))\<close>, elementwise.\<close>

definition clip :: "real list \<Rightarrow> real \<Rightarrow> real \<Rightarrow> real list" where
  "clip a a_min a_max = map (\<lambda>x. min a_max (max x a_min)) a"


section \<open>Distance-time windows (distance\_time\_windows.py)\<close>

text \<open>
  The three subclasses of \<open>BaseDistanceTimeWindow\<close>; an instance carries the optional
  \<open>time_cutoff\<close> given to the constructor. Magnitudes are reals: rounding, infinities
  and NaN of float64 are not modelled. \<open>np.power(10.0, x)\<close> is \<open>10 powr x\<close>.
  \<open>pd.Timedelta(days=t)\<close> is a constructor around the number of days.
\<close>

datatype window_class = GardnerKnopoffWindow | GruenthalWindow | UhrhammerWindow

record window =
  window_class :: window_class
  time_cutoff :: "real option"

datatype timedelta = Timedelta (days: real)

fun calc :: "window_class \<Rightarrow> real list \<Rightarrow> real list \<times> real list" where
  "calc GardnerKnopoffWindow magnitude =
     (let sw_space = map (\<lambda>m. 10 powr (0.1238 * m + 0.983)) magnitude;
          sw_time = map (\<lambda>m. 10 powr (0.032 * m + 2.7389)) magnitude;
          msk = map (\<lambda>m. m < 6.5) magnitude;
          sw_time = mask_assign sw_time msk
                      (map (\<lambda>m. 10 powr (0.5409 * m - 0.547)) (mask_select magnitude msk))
      in (sw_space, sw_time))"
| "calc GruenthalWindow magnitude =
     (let sw_space = map (\<lambda>m. exp (1.77 + sqrt (0.037 + 1.02 * m))) magnitude;
          sw_time = map (\<lambda>m. \<bar>exp (- 3.95 + sqrt (0.62 + 17.32 * m))\<bar>) magnitude;
          msk = map (\<lambda>m. m \<ge> 6.5) magnitude;
          sw_time = mask_assign sw_time msk
                      (map (\<lambda>m. 10 powr (2.8 + 0.024 * m)) (mask_select magnitude msk))
      in (sw_space, sw_time))"
| "calc UhrhammerWindow magnitude =
     (let sw_space = map (\<lambda>m. exp (- 1.024 + 0.804 * m)) magnitude;
          sw_time = map (\<lambda>m. exp (- 2.87 + 1.235 * m)) magnitude
      in (sw_space, sw_time))"

text \<open>
  \<open>__call__\<close>: Python's truth test \<open>if self.time_cutoff:\<close> is false for \<open>None\<close> and
  for zero.
\<close>

definition call :: "window \<Rightarrow> real list \<Rightarrow> real list \<times> timedelta list" where
  "call self magnitude =
     (let (sw_space, sw_time) = calc (window_class self) magnitude;
          sw_time = (case time_cutoff self of
                       None \<Rightarrow> sw_time
                     | Some c \<Rightarrow> if c \<noteq> 0 then clip sw_time 0 c else sw_time);
          sw_time = map Timedelta sw_time
      in (sw_space, sw_time))"


section \<open>NumPy's indirect heapsort\<close>

text \<open>
  \<open>np.argsort(v, kind="heapsort")\<close> runs NumPy's \<open>aheapsort\<close> on the index array
  \<open>tosort\<close>: a binary max-heap by key \<open>v[tosort[.]]\<close>, addressed from 1 (the C code sets
  \<open>a = tosort - 1\<close>, so \<open>a[p]\<close> there is \<open>a ! (p - 1)\<close> here). \<open>sift\<close> is the inner
  loop shared by both phases, including the store \<open>a[i] = tmp\<close> that follows it; \<open>build\<close>
  is the heap construction \<open>for (l = n >> 1; l > 0; --l)\<close> and \<open>popmax\<close> the extraction
  loop \<open>for (; n > 1;)\<close>. Keys are compared with \<open><\<close> only. The guard \<open>0 < j\<close> in
  \<open>sift\<close> is always true where NumPy runs the loop (\<open>j\<close> is at least 2).
\<close>

function sift :: "'a::linorder list \<Rightarrow> nat \<Rightarrow> nat \<Rightarrow> nat \<Rightarrow> nat \<Rightarrow> nat list \<Rightarrow> nat list" where
  "sift v tmp n i j a =
     (if 0 < j \<and> j \<le> n then
        let j = (if j < n \<and> v ! (a ! (j - 1)) < v ! (a ! j) then j + 1 else j)
        in if v ! tmp < v ! (a ! (j - 1))
           then sift v tmp n j (j + j) (a[i - 1 := a ! (j - 1)])
           else a[i - 1 := tmp]
      else a[i - 1 := tmp])"
  by pat_completeness auto
termination
  by (relation "measure (\<lambda>(v, tmp, n, i, j, a). n + 1 - j)") auto

declare sift.simps [simp del]

fun build :: "'a::linorder list \<Rightarrow> nat \<Rightarrow> nat \<Rightarrow> nat list \<Rightarrow> nat list" where
  "build v n 0 a = a"
| "build v n (Suc l) a = build v n l (sift v (a ! l) n (Suc l) (2 * Suc l) a)"

fun popmax :: "'a::linorder list \<Rightarrow> nat \<Rightarrow> nat list \<Rightarrow> nat list" where
  "popmax v 0 a = a"
| "popmax v (Suc n) a =
     (if n > 0 then popmax v n (sift v (a ! n) n 1 2 (a[n := a ! 0])) else a)"

definition aheapsort :: "'a::linorder list \<Rightarrow> nat list \<Rightarrow> nat list" where
  "aheapsort v tosort = (let n = length tosort in popmax v n (build v n (n div 2) tosort))"

text \<open>\<open>np.argsort(v, kind="heapsort")\<close> starts from the index array \<open>0 .. n-1\<close>.\<close>

definition argsort :: "'a::linorder list \<Rightarrow> nat list" where
  "argsort v = aheapsort v [0..<length v]"



section \<open>The declustering algorithm (dec\_gardner\_knopoff.py)\<close>

text \<open>
  A catalogue is a data frame with the default row index \<open>0 .. n-1\<close>: the list of its
  column names and the list of its rows. The columns \<open>magnitude\<close>, \<open>longitude\<close> and
  \<open>latitude\<close> are always present; a time column that is not named in \<open>columns\<close> is
  absent from the frame, and the corresponding fields of the rows are never read. The
  field \<open>ev_magnitude\<close> of a row is its entry in the column \<open>magnitude\<close>, and so on.
  Of a timestamp only \<open>.dt.year\<close> and \<open>.dt.dayofyear\<close> are read.
\<close>

datatype error = ValueError string

record timestamp =
  dt_year :: int
  dt_dayofyear :: int

record event =
  ev_magnitude :: real
  ev_longitude :: real
  ev_latitude :: real
  ev_year :: int
  ev_month :: int
  ev_day :: int
  ev_time :: timestamp

record catalogue =
  columns :: "string list"
  rows :: "event list"

text \<open>
  Modelled from the spec: the method \<open>calc(magnitude, time_cutoff)\<close> that \<open>decluster\<close>
  calls on the configured window object is not in the source (the classes of
  distance\_time\_windows.py define \<open>_calc\<close> and \<open>__call__\<close>). By \<section>4.1 it returns
  one space radius and one time duration per magnitude, each computed from that magnitude
  alone, after the optional cutoff: it is the function \<open>time_distance_window\<close> from the
  cutoff and one magnitude to the pair (space, time). The field \<open>gk_time_cutoff\<close> is
  \<open>config.get("time_cutoff")\<close>, which is \<open>None\<close> where the key is absent.
\<close>

record GKConfig =
  time_distance_window :: "int option \<Rightarrow> real \<Rightarrow> real \<times> real"
  fs_time_prop :: real
  gk_time_cutoff :: "int option"

text \<open>
  \<open>year_dec\<close> is a NumPy array in the year/month/day branch and a pandas Series in the
  \<open>time\<close> branch (a sum of two Series). Both are indexed twice: \<open>year_dec[id0]\<close> and
  \<open>year_dec[i]\<close>. On an array both are positional. On a Series with an integer index both
  go by label: \<open>year_dec[id0]\<close> picks the rows labelled \<open>id0\<close>, in that order, and keeps
  their labels as the new index; \<open>year_dec[i]\<close> is then the value whose label is \<open>i\<close>.
  Arithmetic and comparisons act on the values, in positional order. \<open>label_pos\<close> is
  the position of a label in the index; every label that \<open>decluster\<close> looks up is a row
  number of the frame and is present, so the \<open>KeyError\<close> of a missing label does not
  arise.
\<close>

datatype year_array = NdArray "real list" | Series "nat list" "real list"

fun values_of :: "year_array \<Rightarrow> real list" where
  "values_of (NdArray xs) = xs"
| "values_of (Series ix xs) = xs"

fun label_pos :: "nat list \<Rightarrow> nat \<Rightarrow> nat" where
  "label_pos [] l = 0"
| "label_pos (x # xs) l = (if x = l then 0 else Suc (label_pos xs l))"

fun take_rows :: "year_array \<Rightarrow> nat list \<Rightarrow> year_array" where
  "take_rows (NdArray xs) idx = NdArray (map ((!) xs) idx)"
| "take_rows (Series ix xs) idx = Series idx (map (\<lambda>l. xs ! label_pos ix l) idx)"

fun item :: "year_array \<Rightarrow> nat \<Rightarrow> real" where
  "item (NdArray xs) i = xs ! i"
| "item (Series ix xs) i = xs ! label_pos ix i"

text \<open>The three arrays the loop updates.\<close>

record state =
  cluster_ids :: "int list"
  shock_types :: "int list"
  clust_index :: int

text \<open>
  One iteration of \<open>for i in range(0, neq - 1)\<close>. The function \<open>haversine\<close> of the
  module \<open>utils\<close> is not in the source; it is a parameter giving, for one candidate
  (longitude, latitude) and the reference point, their distance (\<section>4.2: one result per
  candidate, in the order of the candidates).
\<close>

definition visit ::
  "(real \<Rightarrow> real \<Rightarrow> real \<Rightarrow> real \<Rightarrow> real) \<Rightarrow> real \<Rightarrow> real list \<Rightarrow> real list \<Rightarrow>
   real list \<Rightarrow> real list \<Rightarrow> year_array \<Rightarrow> nat \<Rightarrow> state \<Rightarrow> state" where
  "visit haversine fs longitude latitude sw_space sw_time year_dec i st =
     (if cluster_ids st ! i = 0 then
        let dt = map (\<lambda>y. y - item year_dec i) (values_of year_dec);
            vsel = map2 (\<lambda>c d. c = 0 \<and> (d \<ge> (- (sw_time ! i)) * fs \<and> d \<le> sw_time ! i))
                     (cluster_ids st) dt;
            vsel1 = map2 (\<lambda>lo la. haversine lo la (longitude ! i) (latitude ! i) \<le> sw_space ! i)
                      (mask_select longitude vsel) (mask_select latitude vsel);
            vsel = mask_assign vsel vsel vsel1;
            temp_vsel = vsel[i := False]
        in if list_ex (\<lambda>b. b) temp_vsel then
             let cluster_ids' = mask_fill (cluster_ids st) vsel (clust_index st + 1);
                 shock_types' = mask_fill (shock_types st) vsel 1;
                 temp_vsel = mask_fill temp_vsel (map (\<lambda>d. d \<ge> 0) dt) False;
                 shock_types' = mask_fill shock_types' temp_vsel (- 1);
                 shock_types' = shock_types'[i := 0]
             in \<lparr>cluster_ids = cluster_ids', shock_types = shock_types',
                 clust_index = clust_index st + 1\<rparr>
           else st
      else st)"

text \<open>
  Lines 135 to 200: windows, sort into descending magnitude, the loop, and the return to
  the original order. \<open>np.flipud\<close> reverses the index array.
\<close>

definition cluster ::
  "(real \<Rightarrow> real \<Rightarrow> real \<Rightarrow> real \<Rightarrow> real) \<Rightarrow> GKConfig \<Rightarrow> real list \<Rightarrow> real list \<Rightarrow>
   real list \<Rightarrow> year_array \<Rightarrow> int list \<times> int list" where
  "cluster haversine config magnitude longitude latitude year_dec =
     (let neq = length magnitude;
          sw = map (time_distance_window config (gk_time_cutoff config)) magnitude;
          sw_space = map fst sw;
          sw_time = map snd sw;
          eqid = [0..<neq];
          id0 = rev (argsort magnitude);
          longitude = map ((!) longitude) id0;
          latitude = map ((!) latitude) id0;
          sw_space = map ((!) sw_space) id0;
          sw_time = map ((!) sw_time) id0;
          year_dec = take_rows year_dec id0;
          eqid = map ((!) eqid) id0;
          st = fold (visit haversine (fs_time_prop config) longitude latitude sw_space sw_time
                       year_dec)
                 [0..<neq - 1]
                 \<lparr>cluster_ids = replicate neq 0, shock_types = replicate neq 0,
                  clust_index = 0\<rparr>;
          id1 = argsort eqid
      in (map ((!) (cluster_ids st)) id1, map ((!) (shock_types st)) id1))"

text \<open>
  \<open>decluster\<close>. The function \<open>decimal_year\<close> of the module \<open>utils\<close> is not in the
  source; it is a parameter, applied to the year, month and day of each row (\<section>4.3).
\<close>

definition decluster ::
  "(int \<Rightarrow> int \<Rightarrow> int \<Rightarrow> real) \<Rightarrow> (real \<Rightarrow> real \<Rightarrow> real \<Rightarrow> real \<Rightarrow> real) \<Rightarrow>
   catalogue \<Rightarrow> GKConfig \<Rightarrow> error + int list \<times> int list" where
  "decluster decimal_year haversine catalogue config =
     (let magnitude = map ev_magnitude (rows catalogue);
          longitude = map ev_longitude (rows catalogue);
          latitude = map ev_latitude (rows catalogue);
          use_time_columns = list_all (\<lambda>c. c \<in> set (columns catalogue))
                               [''year'', ''month'', ''day'']
      in if use_time_columns then
           Inr (cluster haversine config magnitude longitude latitude
                  (NdArray (map (\<lambda>r. decimal_year (ev_year r) (ev_month r) (ev_day r)) (rows catalogue))))
         else if ''time'' \<in> set (columns catalogue) then
           Inr (cluster haversine config magnitude longitude latitude
                  (Series [0..<length (rows catalogue)]
                     (map (\<lambda>r. real_of_int (dt_year (ev_time r))
                                + real_of_int (dt_dayofyear (ev_time r)) / 365) (rows catalogue))))
         else Inl (ValueError
                ''Catalogue must contain either year, month, day columns or a time column''))"

text \<open>
  Modelled from the spec: \<open>decimal_year\<close> and \<open>haversine\<close> are not in the source. For
  concrete runs, \<open>decimal_year_spec\<close> is \<section>4.3 (the year plus the day of the year over
  365, the day of the year counted in a year of 365 days, for the months 1 to 12) and
  \<open>haversine_spec\<close> is
  \<section>4.2 (the haversine formula on degrees, with the mean Earth radius in km).
\<close>

definition decimal_year_spec :: "int \<Rightarrow> int \<Rightarrow> int \<Rightarrow> real" where
  "decimal_year_spec y m d =
     real_of_int y
     + real_of_int ([0, 31, 59, 90, 120, 151, 181, 212, 243, 273, 304, 334] ! nat (m - 1) + d) / 365"

definition haversine_spec :: "real \<Rightarrow> real \<Rightarrow> real \<Rightarrow> real \<Rightarrow> real" where
  "haversine_spec lon1 lat1 lon2 lat2 =
     (let r = pi / 180;
          dlat = lat1 * r - lat2 * r;
          dlon = lon1 * r - lon2 * r;
          aval = (sin (dlat / 2))\<^sup>2 + cos (lat1 * r) * cos (lat2 * r) * (sin (dlon / 2))\<^sup>2
      in 2 * 6371 * arcsin (sqrt aval))"


section \<open>Predicates used in the proofs\<close>

text \<open>
  The key at heap position \<open>p\<close> (counted from 1), the heap property on the positions
  \<open>l .. n\<close>, and the state of the extraction loop: every position above \<open>m\<close> holds a key
  that is at least every key before it.
\<close>

definition key :: "'a::linorder list \<Rightarrow> nat list \<Rightarrow> nat \<Rightarrow> 'a" where
  "key v a p = v ! (a ! (p - 1))"

definition hp :: "'a::linorder list \<Rightarrow> nat list \<Rightarrow> nat \<Rightarrow> nat \<Rightarrow> bool" where
  "hp v a l n = (\<forall>c. c \<le> n \<longrightarrow> l \<le> c div 2 \<longrightarrow> key v a c \<le> key v a (c div 2))"

definition suf :: "'a::linorder list \<Rightarrow> nat list \<Rightarrow> nat \<Rightarrow> bool" where
  "suf v a m = (\<forall>p q. 0 < p \<longrightarrow> p < q \<longrightarrow> m < q \<longrightarrow> q \<le> length a \<longrightarrow> key v a p \<le> key v a q)"


text \<open>
  The loop body in pointwise form. \<open>inwin\<close> is the window test of position \<open>k\<close> against
  the seed position \<open>i\<close> (time window, then distance), \<open>before\<close> is \<open>dt < 0\<close>, and
  \<open>gstep\<close> is one iteration written with these two tests.
\<close>

definition inwin ::
  "(real \<Rightarrow> real \<Rightarrow> real \<Rightarrow> real \<Rightarrow> real) \<Rightarrow> real \<Rightarrow> real list \<Rightarrow> real list \<Rightarrow>
   real list \<Rightarrow> real list \<Rightarrow> year_array \<Rightarrow> nat \<Rightarrow> nat \<Rightarrow> bool" where
  "inwin haversine fs longitude latitude sw_space sw_time year_dec i k =
     ((values_of year_dec ! k - item year_dec i \<ge> (- (sw_time ! i)) * fs \<and>
       values_of year_dec ! k - item year_dec i \<le> sw_time ! i) \<and>
      haversine (longitude ! k) (latitude ! k) (longitude ! i) (latitude ! i) \<le> sw_space ! i)"

definition before :: "year_array \<Rightarrow> nat \<Rightarrow> nat \<Rightarrow> bool" where
  "before year_dec i k = (values_of year_dec ! k - item year_dec i < 0)"

definition gstep :: "(nat \<Rightarrow> nat \<Rightarrow> bool) \<Rightarrow> (nat \<Rightarrow> nat \<Rightarrow> bool) \<Rightarrow> nat \<Rightarrow> nat \<Rightarrow> state \<Rightarrow> state" where
  "gstep W B n i st =
     (if cluster_ids st ! i = 0 \<and> (\<exists>k<n. k \<noteq> i \<and> cluster_ids st ! k = 0 \<and> W i k) then
        \<lparr>cluster_ids = map (\<lambda>k. if cluster_ids st ! k = 0 \<and> W i k then clust_index st + 1
                                else cluster_ids st ! k) [0..<n],
         shock_types = map (\<lambda>k. if k = i then 0
                                else if cluster_ids st ! k = 0 \<and> W i k
                                     then (if B i k then - 1 else 1)
                                     else shock_types st ! k) [0..<n],
         clust_index = clust_index st + 1\<rparr>
      else st)"

text \<open>
  \<open>fires\<close>: the iteration at \<open>i\<close> forms a cluster. \<open>wf_state\<close>: the shape of the state
  that every iteration keeps.
\<close>

definition fires :: "(nat \<Rightarrow> nat \<Rightarrow> bool) \<Rightarrow> nat \<Rightarrow> nat \<Rightarrow> state \<Rightarrow> bool" where
  "fires W n i st = (cluster_ids st ! i = 0 \<and> (\<exists>k<n. k \<noteq> i \<and> cluster_ids st ! k = 0 \<and> W i k))"

definition wf_state :: "nat \<Rightarrow> state \<Rightarrow> bool" where
  "wf_state n st =
     (length (cluster_ids st) = n \<and> length (shock_types st) = n \<and> 0 \<le> clust_index st \<and>
      (\<forall>k<n. 0 \<le> cluster_ids st ! k \<and> cluster_ids st ! k \<le> clust_index st) \<and>
      (\<forall>k<n. cluster_ids st ! k = 0 \<longrightarrow> shock_types st ! k = 0) \<and>
      (\<forall>k<n. shock_types st ! k = - 1 \<or> shock_types st ! k = 0 \<or> shock_types st ! k = 1))"

text \<open>
  Names for the intermediate values of \<open>cluster\<close>: the visiting order \<open>id0\<close>, the window
  and foreshock tests of the loop on the sorted arrays, and the state after the loop.
\<close>

definition visiting_order :: "real list \<Rightarrow> nat list" where
  "visiting_order magnitude = rev (argsort magnitude)"

definition loop_W ::
  "(real \<Rightarrow> real \<Rightarrow> real \<Rightarrow> real \<Rightarrow> real) \<Rightarrow> GKConfig \<Rightarrow> real list \<Rightarrow> real list \<Rightarrow>
   real list \<Rightarrow> year_array \<Rightarrow> nat \<Rightarrow> nat \<Rightarrow> bool" where
  "loop_W haversine config magnitude longitude latitude year_dec =
     (let id0 = visiting_order magnitude;
          sw = map (time_distance_window config (gk_time_cutoff config)) magnitude
      in inwin haversine (fs_time_prop config) (map ((!) longitude) id0) (map ((!) latitude) id0)
           (map ((!) (map fst sw)) id0) (map ((!) (map snd sw)) id0) (take_rows year_dec id0))"

definition loop_B :: "real list \<Rightarrow> year_array \<Rightarrow> nat \<Rightarrow> nat \<Rightarrow> bool" where
  "loop_B magnitude year_dec = before (take_rows year_dec (visiting_order magnitude))"

definition loop_state ::
  "(real \<Rightarrow> real \<Rightarrow> real \<Rightarrow> real \<Rightarrow> real) \<Rightarrow> GKConfig \<Rightarrow> real list \<Rightarrow> real list \<Rightarrow>
   real list \<Rightarrow> year_array \<Rightarrow> state" where
  "loop_state haversine config magnitude longitude latitude year_dec =
     fold (gstep (loop_W haversine config magnitude longitude latitude year_dec)
             (loop_B magnitude year_dec) (length magnitude))
       [0..<length magnitude - 1]
       \<lparr>cluster_ids = replicate (length magnitude) 0,
        shock_types = replicate (length magnitude) 0, clust_index = 0\<rparr>"

section \<open>Reference order and sample inputs\<close>

text \<open>
  Following the spec (\<section>4.4, step 3): a stable ascending argsort, which keeps rows of equal
  magnitude in their original relative order. It is compared with \<open>argsort\<close> below.
\<close>

definition stable_argsort :: "real list \<Rightarrow> nat list" where
  "stable_argsort v = sort_key (\<lambda>i. v ! i) [0..<length v]"

text \<open>
  Sample catalogues: every event at longitude 0 and latitude 0 on the first of January of
  its year. \<open>fixed_window\<close> is a window strategy that gives every magnitude the radius
  100 and the duration 2.
\<close>

definition quake :: "real \<Rightarrow> int \<Rightarrow> event" where
  "quake m y = \<lparr>ev_magnitude = m, ev_longitude = 0, ev_latitude = 0,
                ev_year = y, ev_month = 1, ev_day = 1,
                ev_time = \<lparr>dt_year = y, dt_dayofyear = 1\<rparr>\<rparr>"

definition ymd_catalogue :: "event list \<Rightarrow> catalogue" where
  "ymd_catalogue evs =
     \<lparr>columns = [''magnitude'', ''longitude'', ''latitude'', ''year'', ''month'', ''day''],
      rows = evs\<rparr>"

definition fixed_window :: "int option \<Rightarrow> real \<Rightarrow> real \<times> real" where
  "fixed_window cutoff m = (100, 2)"

definition sample_config :: "real \<Rightarrow> GKConfig" where
  "sample_config fs =
     \<lparr>time_distance_window = fixed_window, fs_time_prop = fs, gk_time_cutoff = None\<rparr>"


section \<open>Masked assignment computes a pointwise choice\<close>

lemma mask_select_map:
  "mask_select (map g ms) (map p ms) = map g (mask_select ms (map p ms))"
  by (induction ms) simp_all

lemma mask_assign_map:
  "mask_assign (map f ms) (map p ms) (map g (mask_select ms (map p ms)))
     = map (\<lambda>m. if p m then g m else f m) ms"
  by (induction ms) simp_all

lemma length_mask_assign [simp]: "length (mask_assign xs bs vs) = length xs"
  by (induction xs bs vs rule: mask_assign.induct) (simp_all split: list.splits)

lemma length_mask_fill [simp]: "length (mask_fill xs bs c) = min (length xs) (length bs)"
  by (simp add: mask_fill_def)

lemma nth_mask_fill:
  "i < length xs \<Longrightarrow> i < length bs \<Longrightarrow> mask_fill xs bs c ! i = (if bs ! i then c else xs ! i)"
  by (simp add: mask_fill_def)

lemma calc_positive:
  "x \<in> set (snd (calc k magnitude)) \<Longrightarrow> 0 < x"
  by (cases k) (auto simp: mask_assign_map Let_def)

lemma length_calc:
  "length (fst (calc k magnitude)) = length magnitude \<and>
   length (snd (calc k magnitude)) = length magnitude"
  by (cases k) (simp_all add: Let_def)



section \<open>Correctness of the indirect heapsort\<close>

lemma length_sift [simp]: "length (sift v tmp n i j a) = length a"
proof (induction v tmp n i j a rule: sift.induct)
  case (1 v tmp n i j a)
  then show ?case by (subst sift.simps) (simp add: Let_def)
qed

lemma mset_move:
  assumes "p < length a" "q < length a" "p \<noteq> q"
  shows "mset (a[p := a ! q, q := t]) = mset (a[p := t])"
proof -
  let ?b = "a[p := t]"
  have eq: "?b[p := ?b ! q, q := ?b ! p] = a[p := a ! q, q := t]"
    using assms by simp
  have "mset (?b[p := ?b ! q, q := ?b ! p]) = mset ?b"
    by (rule mset_swap) (use assms in auto)
  then show ?thesis unfolding eq .
qed

lemma sift_stop: "\<not> (0 < j \<and> j \<le> n) \<Longrightarrow> sift v tmp n i j a = a[i - 1 := tmp]"
  by (subst sift.simps) (simp only: if_False)

lemma sift_step:
  assumes "0 < j \<and> j \<le> n"
    and "j2 = (if j < n \<and> v ! (a ! (j - 1)) < v ! (a ! j) then j + 1 else j)"
  shows "sift v tmp n i j a =
           (if v ! tmp < v ! (a ! (j2 - 1))
            then sift v tmp n j2 (j2 + j2) (a[i - 1 := a ! (j2 - 1)])
            else a[i - 1 := tmp])"
  using assms(1) sift.simps [of v tmp n i j a] unfolding assms(2) by (simp add: Let_def)

lemma mset_sift:
  "0 < i \<Longrightarrow> i < j \<Longrightarrow> i \<le> length a \<Longrightarrow> n \<le> length a \<Longrightarrow>
   mset (sift v tmp n i j a) = mset (a[i - 1 := tmp])"
proof (induction v tmp n i j a rule: sift.induct)
  case (1 v tmp n i j a)
  show ?case
  proof (cases "0 < j \<and> j \<le> n")
    case False
    then show ?thesis by (simp add: sift_stop)
  next
    case inr: True
    define j2 where "j2 = (if j < n \<and> v ! (a ! (j - 1)) < v ! (a ! j) then j + 1 else j)"
    have j2: "i < j2" "j2 \<le> n" "0 < j2" using inr "1.prems" by (auto simp: j2_def)
    note step = sift_step [OF inr j2_def, of tmp i]
    show ?thesis
    proof (cases "v ! tmp < v ! (a ! (j2 - 1))")
      case False
      then show ?thesis by (simp add: step)
    next
      case True
      have "mset (sift v tmp n j2 (j2 + j2) (a[i - 1 := a ! (j2 - 1)]))
            = mset (a[i - 1 := a ! (j2 - 1), j2 - 1 := tmp])"
        using "1.IH" [OF inr j2_def True] j2 "1.prems" by simp
      also have "\<dots> = mset (a[i - 1 := tmp])"
        using j2 "1.prems" by (intro mset_move) auto
      finally show ?thesis
        using True by (simp add: step)
    qed
  qed
qed

lemma sift_outside:
  "0 < i \<Longrightarrow> i < j \<Longrightarrow> p + 1 < i \<or> n \<le> p \<Longrightarrow> i \<le> n \<Longrightarrow>
   sift v tmp n i j a ! p = a ! p"
proof (induction v tmp n i j a rule: sift.induct)
  case (1 v tmp n i j a)
  show ?case
  proof (cases "0 < j \<and> j \<le> n")
    case False
    then show ?thesis using "1.prems" by (auto simp: sift_stop)
  next
    case inr: True
    define j2 where "j2 = (if j < n \<and> v ! (a ! (j - 1)) < v ! (a ! j) then j + 1 else j)"
    have j2: "i < j2" "j2 \<le> n" "0 < j2" using inr "1.prems" by (auto simp: j2_def)
    note step = sift_step [OF inr j2_def, of tmp i]
    show ?thesis
    proof (cases "v ! tmp < v ! (a ! (j2 - 1))")
      case False
      then show ?thesis using "1.prems" by (auto simp: step)
    next
      case True
      have "sift v tmp n j2 (j2 + j2) (a[i - 1 := a ! (j2 - 1)]) ! p
            = (a[i - 1 := a ! (j2 - 1)]) ! p"
        using "1.IH" [OF inr j2_def True] j2 "1.prems" by auto
      also have "\<dots> = a ! p"
        using j2 "1.prems" by auto
      finally show ?thesis
        using True by (simp add: step)
    qed
  qed
qed

lemma sift_pred:
  "0 < i \<Longrightarrow> i < j \<Longrightarrow> i \<le> n \<Longrightarrow> n \<le> length a \<Longrightarrow> P tmp \<Longrightarrow>
   (\<And>p. p < n \<Longrightarrow> P (a ! p)) \<Longrightarrow> p < n \<Longrightarrow> P (sift v tmp n i j a ! p)"
proof (induction v tmp n i j a rule: sift.induct)
  case (1 v tmp n i j a)
  show ?case
  proof (cases "0 < j \<and> j \<le> n")
    case False
    then show ?thesis using "1.prems" by (auto simp: sift_stop nth_list_update)
  next
    case inr: True
    define j2 where "j2 = (if j < n \<and> v ! (a ! (j - 1)) < v ! (a ! j) then j + 1 else j)"
    have j2: "i < j2" "j2 \<le> n" "0 < j2" using inr "1.prems" by (auto simp: j2_def)
    note step = sift_step [OF inr j2_def, of tmp i]
    show ?thesis
    proof (cases "v ! tmp < v ! (a ! (j2 - 1))")
      case False
      then show ?thesis using "1.prems" by (auto simp: step nth_list_update)
    next
      case True
      have "\<And>p. p < n \<Longrightarrow> P (a[i - 1 := a ! (j2 - 1)] ! p)"
        using "1.prems" j2 by (auto simp: nth_list_update)
      then have "P (sift v tmp n j2 (j2 + j2) (a[i - 1 := a ! (j2 - 1)]) ! p)"
        using "1.IH" [OF inr j2_def True] j2 "1.prems" by auto
      then show ?thesis
        using True by (simp add: step)
    qed
  qed
qed


lemma key_update:
  "0 < c \<Longrightarrow> 0 < i \<Longrightarrow> i \<le> length a \<Longrightarrow>
   key v (a[i - Suc 0 := x]) c = (if c = i then v ! x else key v a c)"
  by (auto simp: key_def nth_list_update)

lemma sift_heap:
  "0 < l \<Longrightarrow> l \<le> i \<Longrightarrow> j = 2 * i \<Longrightarrow> i \<le> n \<Longrightarrow> n \<le> length a \<Longrightarrow>
   (\<forall>c. c \<le> n \<longrightarrow> l \<le> c div 2 \<longrightarrow> c div 2 \<noteq> i \<longrightarrow> key v a c \<le> key v a (c div 2)) \<Longrightarrow>
   (\<forall>c. l \<le> i div 2 \<longrightarrow> c \<le> n \<longrightarrow> c div 2 = i \<longrightarrow> key v a c \<le> key v a (i div 2)) \<Longrightarrow>
   (l \<le> i div 2 \<longrightarrow> v ! tmp \<le> key v a (i div 2)) \<Longrightarrow>
   hp v (sift v tmp n i j a) l n"
proof (induction v tmp n i j a rule: sift.induct)
  case (1 v tmp n i j a)
  note l = \<open>0 < l\<close> \<open>l \<le> i\<close> and j = \<open>j = 2 * i\<close> and n = \<open>i \<le> n\<close> \<open>n \<le> length a\<close>
  have I1: "key v a c \<le> key v a (c div 2)" if "c \<le> n" "l \<le> c div 2" "c div 2 \<noteq> i" for c
    using "1.prems"(6) that by blast
  have I2: "key v a c \<le> key v a (i div 2)" if "l \<le> i div 2" "c \<le> n" "c div 2 = i" for c
    using "1.prems"(7) that by blast
  have I3: "v ! tmp \<le> key v a (i div 2)" if "l \<le> i div 2"
    using "1.prems"(8) that by blast
  have ilen: "0 < i" "i \<le> length a" using l n by auto
  have upd: "key v (a[i - Suc 0 := x]) c = (if c = i then v ! x else key v a c)" if "0 < c" for c x
    using that ilen by (rule key_update)
  text \<open>the final store \<open>a[i] = tmp\<close> yields a heap when \<open>tmp\<close> dominates the children of \<open>i\<close>\<close>
  have fin: "hp v (a[i - 1 := tmp]) l n"
    if ch: "\<And>c. c \<le> n \<Longrightarrow> c div 2 = i \<Longrightarrow> key v a c \<le> v ! tmp"
  unfolding hp_def
  proof (intro allI impI)
    fix c assume c: "c \<le> n" "l \<le> c div 2"
    then have cpos: "0 < c" "0 < c div 2" using l by auto
    show "key v (a[i - 1 := tmp]) c \<le> key v (a[i - 1 := tmp]) (c div 2)"
    proof (cases "c = i")
      case True
      then have "c div 2 \<noteq> i" and "0 < i div 2" using cpos by presburger+
      then show ?thesis using True I3 c by (simp add: upd cpos ilen)
    next
      case False
      show ?thesis
      proof (cases "c div 2 = i")
        case True
        then show ?thesis using False ch [OF c(1) True] by (simp add: upd cpos ilen)
      next
        case nc: False
        then show ?thesis using False I1 [OF c nc] by (simp add: upd cpos ilen)
      qed
    qed
  qed
  show ?case
  proof (cases "0 < j \<and> j \<le> n")
    case False
    then have "n < 2 * i" using j ilen by auto
    then have "\<And>c. c \<le> n \<Longrightarrow> c div 2 = i \<Longrightarrow> key v a c \<le> v ! tmp" by presburger
    then show ?thesis unfolding sift_stop [OF False] by (rule fin)
  next
    case inr: True
    define j2 where "j2 = (if j < n \<and> v ! (a ! (j - 1)) < v ! (a ! j) then j + 1 else j)"
    have j2: "i < j2" "j2 \<le> n" "0 < j2" "j2 div 2 = i" "j2 + j2 = 2 * j2"
      using inr j ilen by (auto simp: j2_def)
    note step = sift_step [OF inr j2_def, of tmp i]
    have big: "key v a c \<le> key v a j2" if "c \<le> n" "c div 2 = i" for c
    proof -
      have kj: "key v a j = v ! (a ! (j - 1))" "key v a (j + 1) = v ! (a ! j)"
        by (simp_all add: key_def)
      have "c = j \<or> c = j + 1" using that j by presburger
      then show ?thesis
      proof
        assume "c = j"
        then show ?thesis unfolding j2_def using kj by auto
      next
        assume c: "c = j + 1"
        then have "j < n" using that by simp
        then show ?thesis unfolding j2_def c using kj by auto
      qed
    qed
    show ?thesis
    proof (cases "v ! tmp < v ! (a ! (j2 - 1))")
      case False
      then have le: "key v a j2 \<le> v ! tmp" by (simp add: key_def)
      have "key v a c \<le> v ! tmp" if "c \<le> n" "c div 2 = i" for c
        using big [OF that] le by (rule order_trans)
      then have "hp v (a[i - 1 := tmp]) l n" by (rule fin)
      then show ?thesis using False by (simp add: step)
    next
      case True
      let ?a = "a[i - 1 := a ! (j2 - 1)]"
      have upd': "key v (a[i - Suc 0 := a ! (j2 - Suc 0)]) c
                   = (if c = i then key v a j2 else key v a c)" if "0 < c" for c
        using upd [OF that, of "a ! (j2 - 1)"] by (simp add: key_def)
      have A1: "\<forall>c. c \<le> n \<longrightarrow> l \<le> c div 2 \<longrightarrow> c div 2 \<noteq> j2 \<longrightarrow> key v ?a c \<le> key v ?a (c div 2)"
      proof (intro allI impI)
        fix c assume c: "c \<le> n" "l \<le> c div 2" "c div 2 \<noteq> j2"
        then have cpos: "0 < c" "0 < c div 2" using l by auto
        show "key v ?a c \<le> key v ?a (c div 2)"
        proof (cases "c = i")
          case True
          then have ne: "c div 2 \<noteq> i" "0 < i div 2" using cpos by presburger+
          have "key v a j2 \<le> key v a (i div 2)"
            using I2 [of j2] c True j2 by simp
          then show ?thesis using True ne by (simp add: upd' cpos ilen)
        next
          case False
          show ?thesis
          proof (cases "c div 2 = i")
            case True
            then show ?thesis using False big [OF c(1) True] by (simp add: upd' cpos ilen)
          next
            case nc: False
            then show ?thesis using False I1 [OF c(1,2) nc] by (simp add: upd' cpos ilen)
          qed
        qed
      qed
      have A2: "\<forall>c. l \<le> j2 div 2 \<longrightarrow> c \<le> n \<longrightarrow> c div 2 = j2 \<longrightarrow> key v ?a c \<le> key v ?a (j2 div 2)"
      proof (intro allI impI)
        fix c assume c: "l \<le> j2 div 2" "c \<le> n" "c div 2 = j2"
        then have cpos: "0 < c" "c \<noteq> i" using j2 by auto
        have "key v a c \<le> key v a j2"
          using I1 [of c] c j2 l by auto
        then show "key v ?a c \<le> key v ?a (j2 div 2)"
          using cpos j2 ilen by (simp add: upd')
      qed
      have A3: "l \<le> j2 div 2 \<longrightarrow> v ! tmp \<le> key v ?a (j2 div 2)"
        using True j2 ilen by (simp add: upd' key_def less_imp_le)
      have "hp v (sift v tmp n j2 (j2 + j2) ?a) l n"
        using "1.IH" [OF inr j2_def True l(1) _ j2(5) j2(2) _ A1 A2 A3] j2(1-4) l n by simp
      then show ?thesis using True by (simp add: step)
    qed
  qed
qed


lemma length_build [simp]: "length (build v n l a) = length a"
  by (induction l arbitrary: a) simp_all

lemma mset_build: "l \<le> length a \<Longrightarrow> n \<le> length a \<Longrightarrow> mset (build v n l a) = mset a"
proof (induction l arbitrary: a)
  case 0
  show ?case by simp
next
  case (Suc l)
  have "mset (sift v (a ! l) n (Suc l) (2 * Suc l) a) = mset (a[Suc l - 1 := a ! l])"
    using Suc.prems by (intro mset_sift) auto
  then show ?case using Suc by simp
qed

lemma hp_build:
  "l \<le> n \<Longrightarrow> n \<le> length a \<Longrightarrow> hp v a (Suc l) n \<Longrightarrow> hp v (build v n l a) 1 n"
proof (induction l arbitrary: a)
  case 0
  then show ?case by simp
next
  case (Suc l)
  have "hp v (sift v (a ! l) n (Suc l) (2 * Suc l) a) (Suc l) n"
  proof (rule sift_heap)
    show "\<forall>c. c \<le> n \<longrightarrow> Suc l \<le> c div 2 \<longrightarrow> c div 2 \<noteq> Suc l \<longrightarrow> key v a c \<le> key v a (c div 2)"
      using Suc.prems(3) by (auto simp: hp_def)
  qed (use Suc.prems in auto)
  then show ?case using Suc by simp
qed

lemma hp_root: "hp v a 1 m \<Longrightarrow> 0 < p \<Longrightarrow> p \<le> m \<Longrightarrow> key v a p \<le> key v a 1"
proof (induction p rule: less_induct)
  case (less p)
  show ?case
  proof (cases "p = 1")
    case True
    then show ?thesis by simp
  next
    case False
    then have h: "1 \<le> p div 2" "p div 2 < p" "p div 2 \<le> m" using less.prems by auto
    have "key v a p \<le> key v a (p div 2)"
      using less.prems h unfolding hp_def by blast
    also have "\<dots> \<le> key v a 1"
      using less.IH [of "p div 2"] h less.prems by simp
    finally show ?thesis .
  qed
qed

lemma length_popmax [simp]: "length (popmax v m a) = length a"
  by (induction v m a rule: popmax.induct) simp_all

lemma mset_popmax: "m \<le> length a \<Longrightarrow> mset (popmax v m a) = mset a"
proof (induction v m a rule: popmax.induct)
  case (1 v a)
  show ?case by simp
next
  case (2 v n a)
  show ?case
  proof (cases "n > 0")
    case False
    then show ?thesis by simp
  next
    case True
    let ?b = "a[n := a ! 0]"
    have "mset (sift v (a ! n) n 1 2 ?b) = mset (?b[1 - 1 := a ! n])"
      using True "2.prems" by (intro mset_sift) auto
    also have "\<dots> = mset (a[n := a ! 0, 0 := a ! n])" by simp
    also have "\<dots> = mset a"
      using True "2.prems" by (intro mset_swap) auto
    finally show ?thesis using True 2 by simp
  qed
qed

lemma popmax_step:
  assumes n: "0 < n" "Suc n \<le> length a"
    and hp: "hp v a 1 (Suc n)" and suf: "suf v a (Suc n)"
  defines "a' \<equiv> sift v (a ! n) n 1 2 (a[n := a ! 0])"
  shows "hp v a' 1 n" and "suf v a' n"
proof -
  let ?b = "a[n := a ! 0]"
  have len: "length a' = length a" by (simp add: a'_def)
  have out: "a' ! p = ?b ! p" if "n \<le> p" for p
    unfolding a'_def using that n by (intro sift_outside) auto
  have top: "a' ! n = a ! 0" using out [of n] n by simp
  have rest: "a' ! p = a ! p" if "n < p" for p using out [of p] that by simp
  have pred: "P (a' ! p)" if "P (a ! n)" "\<And>p. p < n \<Longrightarrow> P (a ! p)" "p < n" for P p
    unfolding a'_def by (rule sift_pred [where P = P]) (use n that in auto)
  show "hp v a' 1 n"
    unfolding a'_def
  proof (rule sift_heap)
    show "\<forall>c. c \<le> n \<longrightarrow> 1 \<le> c div 2 \<longrightarrow> c div 2 \<noteq> 1 \<longrightarrow> key v ?b c \<le> key v ?b (c div 2)"
    proof (intro allI impI)
      fix c assume c: "c \<le> n" "1 \<le> c div 2" "c div 2 \<noteq> 1"
      then have "c - 1 \<noteq> n" "c div 2 - 1 \<noteq> n" by auto
      moreover have "key v a c \<le> key v a (c div 2)"
        using hp c unfolding hp_def by auto
      ultimately show "key v ?b c \<le> key v ?b (c div 2)" by (simp add: key_def)
    qed
  qed (use n in auto)
  have root: "key v a p \<le> key v a 1" if "0 < p" "p \<le> Suc n" for p
    using hp_root [OF hp that] .
  show "suf v a' n"
    unfolding suf_def
  proof (intro allI impI)
    fix p q assume pq: "0 < p" "p < q" "n < q" "q \<le> length a'"
    have q_len: "q \<le> length a" using pq len by simp
    text \<open>everything at or below position \<open>n\<close> of the new array is bounded by any bound of the old prefix\<close>
    have low: "v ! (a' ! (p - 1)) \<le> B"
      if "p \<le> n" "\<And>r. 0 < r \<Longrightarrow> r \<le> Suc n \<Longrightarrow> key v a r \<le> B" for B
    proof (rule pred [where P = "\<lambda>x. v ! x \<le> B"])
      show "v ! (a ! n) \<le> B" using that(2) [of "Suc n"] by (simp add: key_def)
      show "v ! (a ! r) \<le> B" if "r < n" for r
        using \<open>\<And>r. 0 < r \<Longrightarrow> r \<le> Suc n \<Longrightarrow> key v a r \<le> B\<close> [of "Suc r"] that by (simp add: key_def)
      show "p - 1 < n" using that(1) pq by simp
    qed
    show "key v a' p \<le> key v a' q"
    proof (cases "q = Suc n")
      case True
      then have kq: "key v a' q = key v a 1" by (simp add: key_def top)
      have "p \<le> n" using pq True by simp
      then show ?thesis unfolding kq using low [of "key v a 1"] root by (simp add: key_def)
    next
      case False
      then have q: "Suc n < q" using pq by simp
      then have kq: "key v a' q = key v a q" by (simp add: key_def rest)
      have bound: "key v a r \<le> key v a q" if "0 < r" "r \<le> Suc n" for r
        using suf that q q_len unfolding suf_def by auto
      consider "p \<le> n" | "p = Suc n" | "Suc n < p" by linarith
      then show ?thesis
      proof cases
        case 1
        then show ?thesis unfolding kq using low [of "key v a q"] bound by (simp add: key_def)
      next
        case 2
        then have "key v a' p = key v a 1" by (simp add: key_def top)
        then show ?thesis unfolding kq using bound [of 1] by simp
      next
        case 3
        then have "key v a' p = key v a p" by (simp add: key_def rest)
        then show ?thesis unfolding kq using suf 3 pq q q_len unfolding suf_def by auto
      qed
    qed
  qed
qed

lemma suf_popmax:
  "m \<le> length a \<Longrightarrow> hp v a 1 m \<Longrightarrow> suf v a m \<Longrightarrow> suf v (popmax v m a) 0"
proof (induction v m a rule: popmax.induct)
  case (1 v a)
  then show ?case by simp
next
  case (2 v n a)
  show ?case
  proof (cases "n > 0")
    case False
    then have "suf v a 0" using "2.prems"(3) unfolding suf_def by auto
    then show ?thesis using False by simp
  next
    case True
    note st = popmax_step [OF True "2.prems"]
    show ?thesis using "2.IH" [OF True _ st] True "2.prems"(1) by simp
  qed
qed

lemma suf_sorted: "suf v a 0 \<Longrightarrow> sorted (map ((!) v) a)"
  unfolding suf_def sorted_iff_nth_mono_less
proof (intro allI impI)
  fix i j assume h: "\<forall>p q. 0 < p \<longrightarrow> p < q \<longrightarrow> 0 < q \<longrightarrow> q \<le> length a \<longrightarrow> key v a p \<le> key v a q"
    and ij: "i < j" "j < length (map ((!) v) a)"
  have "key v a (Suc i) \<le> key v a (Suc j)" using h ij by auto
  then show "map ((!) v) a ! i \<le> map ((!) v) a ! j" using ij by (simp add: key_def)
qed

lemma mset_aheapsort: "mset (aheapsort v tosort) = mset tosort"
  by (simp add: aheapsort_def Let_def mset_popmax mset_build)

lemma sorted_aheapsort: "sorted (map ((!) v) (aheapsort v tosort))"
proof -
  let ?n = "length tosort"
  let ?h = "build v ?n (?n div 2) tosort"
  have "hp v tosort (Suc (?n div 2)) ?n" unfolding hp_def by auto
  then have "hp v ?h 1 ?n" by (intro hp_build) auto
  moreover have "suf v ?h ?n" unfolding suf_def by auto
  ultimately have "suf v (popmax v ?n ?h) 0" by (intro suf_popmax) auto
  then show ?thesis by (simp add: aheapsort_def Let_def suf_sorted)
qed


section \<open>The loop body, pointwise\<close>

lemma mask_assign_self_nth:
  "length xs = length bs \<Longrightarrow> length ys = length bs \<Longrightarrow> k < length bs \<Longrightarrow>
   mask_assign bs bs (map2 f (mask_select xs bs) (mask_select ys bs)) ! k
     = (bs ! k \<and> f (xs ! k) (ys ! k))"
proof (induction bs arbitrary: xs ys k)
  case Nil
  then show ?case by simp
next
  case (Cons b bs)
  obtain x xs' y ys' where xy: "xs = x # xs'" "ys = y # ys'"
    using Cons.prems by (cases xs; cases ys) auto
  show ?case
    using Cons.prems Cons.IH [of xs' ys'] unfolding xy
    by (cases k) auto
qed

lemma list_ex_update_False:
  "i < length bs \<Longrightarrow> list_ex (\<lambda>b. b) (bs[i := False]) = (\<exists>k<length bs. k \<noteq> i \<and> bs ! k)"
  unfolding list_ex_iff set_conv_nth
  by (auto simp: nth_list_update)

lemma visit_gstep:
  assumes len: "length (cluster_ids st) = n" "length (shock_types st) = n"
    "length longitude = n" "length latitude = n" "length (values_of year_dec) = n"
    and i: "i < n"
  shows "visit haversine fs longitude latitude sw_space sw_time year_dec i st
         = gstep (inwin haversine fs longitude latitude sw_space sw_time year_dec)
             (before year_dec) n i st"
proof (cases "cluster_ids st ! i = 0")
  case False
  then show ?thesis by (simp add: visit_def gstep_def)
next
  case True
  let ?W = "inwin haversine fs longitude latitude sw_space sw_time year_dec"
  define dt where "dt = map (\<lambda>y. y - item year_dec i) (values_of year_dec)"
  define vsel0 where "vsel0 = map2 (\<lambda>c d. c = 0 \<and> (d \<ge> (- (sw_time ! i)) * fs \<and> d \<le> sw_time ! i))
                     (cluster_ids st) dt"
  define vsel where "vsel = mask_assign vsel0 vsel0
     (map2 (\<lambda>lo la. haversine lo la (longitude ! i) (latitude ! i) \<le> sw_space ! i)
        (mask_select longitude vsel0) (mask_select latitude vsel0))"
  have ldt: "length dt = n" by (simp add: dt_def len)
  have l0: "length vsel0 = n" by (simp add: vsel0_def len ldt)
  have lv: "length vsel = n" by (simp add: vsel_def l0)
  have dtk: "dt ! k = values_of year_dec ! k - item year_dec i" if "k < n" for k
    using that by (simp add: dt_def len)
  have v0: "vsel0 ! k = (cluster_ids st ! k = 0 \<and>
      (dt ! k \<ge> (- (sw_time ! i)) * fs \<and> dt ! k \<le> sw_time ! i))" if "k < n" for k
    using that by (simp add: vsel0_def len ldt)
  have vk: "vsel ! k = (cluster_ids st ! k = 0 \<and> ?W i k)" if "k < n" for k
    unfolding vsel_def
    using mask_assign_self_nth [of longitude vsel0 latitude k] that l0 len v0 [OF that] dtk [OF that]
    by (auto simp: inwin_def)
  have ex: "list_ex (\<lambda>b. b) (vsel[i := False])
            = (\<exists>k<n. k \<noteq> i \<and> cluster_ids st ! k = 0 \<and> ?W i k)"
    using list_ex_update_False [of i vsel] lv i vk by auto
  have unf: "visit haversine fs longitude latitude sw_space sw_time year_dec i st =
     (if list_ex (\<lambda>b. b) (vsel[i := False]) then
        \<lparr>cluster_ids = mask_fill (cluster_ids st) vsel (clust_index st + 1),
         shock_types = (mask_fill (mask_fill (shock_types st) vsel 1)
                          (mask_fill (vsel[i := False]) (map (\<lambda>d. d \<ge> 0) dt) False) (- 1))[i := 0],
         clust_index = clust_index st + 1\<rparr>
      else st)"
    using True by (simp add: visit_def Let_def vsel_def vsel0_def dt_def)
  have c_eq: "mask_fill (cluster_ids st) vsel (clust_index st + 1)
      = map (\<lambda>k. if cluster_ids st ! k = 0 \<and> ?W i k then clust_index st + 1
                   else cluster_ids st ! k) [0..<n]"
    by (rule nth_equalityI) (simp_all add: len lv nth_mask_fill vk)
  have s_eq: "(mask_fill (mask_fill (shock_types st) vsel 1)
                 (mask_fill (vsel[i := False]) (map (\<lambda>d. d \<ge> 0) dt) False) (- 1))[i := 0]
      = map (\<lambda>k. if k = i then 0
                   else if cluster_ids st ! k = 0 \<and> ?W i k
                        then (if before year_dec i k then - 1 else 1)
                        else shock_types st ! k) [0..<n]"
  proof (rule nth_equalityI)
    show "length ((mask_fill (mask_fill (shock_types st) vsel 1)
                 (mask_fill (vsel[i := False]) (map (\<lambda>d. d \<ge> 0) dt) False) (- 1))[i := 0])
          = length (map (\<lambda>k. if k = i then 0
                   else if cluster_ids st ! k = 0 \<and> ?W i k
                        then (if before year_dec i k then - 1 else 1)
                        else shock_types st ! k) [0..<n])"
      by (simp add: len lv ldt)
  next
    fix k assume "k < length ((mask_fill (mask_fill (shock_types st) vsel 1)
                 (mask_fill (vsel[i := False]) (map (\<lambda>d. d \<ge> 0) dt) False) (- 1))[i := 0])"
    then have k: "k < n" by (simp add: len lv ldt)
    show "(mask_fill (mask_fill (shock_types st) vsel 1)
                 (mask_fill (vsel[i := False]) (map (\<lambda>d. d \<ge> 0) dt) False) (- 1))[i := 0] ! k
          = map (\<lambda>k. if k = i then 0
                   else if cluster_ids st ! k = 0 \<and> ?W i k
                        then (if before year_dec i k then - 1 else 1)
                        else shock_types st ! k) [0..<n] ! k"
      using k i by (auto simp: nth_list_update len lv ldt nth_mask_fill vk dtk before_def)
  qed
  show ?thesis
    unfolding unf ex c_eq s_eq using True by (simp add: gstep_def)
qed


section \<open>Invariants of the clustering loop\<close>

lemma gstep_idle: "\<not> fires W n i st \<Longrightarrow> gstep W B n i st = st"
  by (auto simp: gstep_def fires_def)

lemma gstep_cluster_ids:
  "k < n \<Longrightarrow> fires W n i st \<Longrightarrow>
   cluster_ids (gstep W B n i st) ! k
     = (if cluster_ids st ! k = 0 \<and> W i k then clust_index st + 1 else cluster_ids st ! k)"
  by (auto simp: gstep_def fires_def)

lemma gstep_shock_types:
  "k < n \<Longrightarrow> fires W n i st \<Longrightarrow>
   shock_types (gstep W B n i st) ! k
     = (if k = i then 0
        else if cluster_ids st ! k = 0 \<and> W i k then (if B i k then - 1 else 1)
        else shock_types st ! k)"
  by (auto simp: gstep_def fires_def)

lemma gstep_clust_index:
  "fires W n i st \<Longrightarrow> clust_index (gstep W B n i st) = clust_index st + 1"
  by (auto simp: gstep_def fires_def)

lemma gstep_lengths:
  "length (cluster_ids st) = n \<Longrightarrow> length (shock_types st) = n \<Longrightarrow>
   length (cluster_ids (gstep W B n i st)) = n \<and> length (shock_types (gstep W B n i st)) = n"
  by (simp add: gstep_def)

lemma wf_gstep:
  assumes "wf_state n st"
  shows "wf_state n (gstep W B n i st)"
proof (cases "fires W n i st")
  case False
  then show ?thesis using assms by (simp add: gstep_idle)
next
  case True
  have len: "length (cluster_ids st) = n" "length (shock_types st) = n"
    using assms by (simp_all add: wf_state_def)
  have "cluster_ids st ! i = 0" using True by (simp add: fires_def)
  then show ?thesis
    using assms gstep_lengths [OF len, of W B i]
    unfolding wf_state_def
    by (auto simp: gstep_cluster_ids [OF _ True] gstep_shock_types [OF _ True]
          gstep_clust_index [OF True])
qed

lemma fold_invariant:
  "P s \<Longrightarrow> (\<And>x s. x \<in> set xs \<Longrightarrow> P s \<Longrightarrow> P (f x s)) \<Longrightarrow> P (fold f xs s)"
  by (induction xs arbitrary: s) simp_all

lemma wf_fold: "wf_state n st \<Longrightarrow> wf_state n (fold (gstep W B n) xs st)"
  by (rule fold_invariant) (simp_all add: wf_gstep)

lemma wf_init: "wf_state n \<lparr>cluster_ids = replicate n 0, shock_types = replicate n 0, clust_index = 0\<rparr>"
  by (simp add: wf_state_def)

lemma fold_visit_gstep:
  assumes "length longitude = n" "length latitude = n" "length (values_of year_dec) = n"
    and "\<forall>i\<in>set xs. i < n" and "wf_state n st"
  shows "fold (visit haversine fs longitude latitude sw_space sw_time year_dec) xs st
         = fold (gstep (inwin haversine fs longitude latitude sw_space sw_time year_dec)
                   (before year_dec) n) xs st"
  using assms(4,5)
proof (induction xs arbitrary: st)
  case Nil
  show ?case by simp
next
  case (Cons x xs)
  have len: "length (cluster_ids st) = n" "length (shock_types st) = n"
    using Cons.prems(2) by (simp_all add: wf_state_def)
  have x: "x < n" using Cons.prems(1) by simp
  note eq = visit_gstep [OF len assms(1-3) x, of haversine fs sw_space sw_time]
  show ?case
    using Cons.IH [of "gstep (inwin haversine fs longitude latitude sw_space sw_time year_dec)
                   (before year_dec) n x st"] Cons.prems wf_gstep [OF Cons.prems(2)]
    by (simp add: eq)
qed

text \<open>No foreshock is assigned when nothing inside a window lies before its seed.\<close>

lemma no_foreshock_gstep:
  assumes "\<And>i k. W i k \<Longrightarrow> \<not> B i k" and "length (shock_types st) = n"
    and "\<forall>k<n. shock_types st ! k \<noteq> - 1"
  shows "\<forall>k<n. shock_types (gstep W B n i st) ! k \<noteq> - 1"
proof (cases "fires W n i st")
  case False
  then show ?thesis using assms(3) by (simp add: gstep_idle)
next
  case True
  show ?thesis
    using assms by (auto simp: gstep_shock_types [OF _ True])
qed



text \<open>Each cluster has exactly one member of shock type 0 when every seed is inside its own window.\<close>

lemma one_mainshock_gstep:
  assumes wf: "wf_state n st" and i: "i < n" and self: "W i i"
    and inv: "\<forall>c. 0 < c \<and> c \<le> clust_index st \<longrightarrow>
                (\<exists>!k. k < n \<and> cluster_ids st ! k = c \<and> shock_types st ! k = 0)"
  shows "\<forall>c. 0 < c \<and> c \<le> clust_index (gstep W B n i st) \<longrightarrow>
           (\<exists>!k. k < n \<and> cluster_ids (gstep W B n i st) ! k = c
                      \<and> shock_types (gstep W B n i st) ! k = 0)"
proof (cases "fires W n i st")
  case False
  then show ?thesis using inv by (simp add: gstep_idle)
next
  case True
  let ?st = "gstep W B n i st"
  have ci: "cluster_ids st ! i = 0" using True by (simp add: fires_def)
  have bound: "\<And>k. k < n \<Longrightarrow> 0 \<le> cluster_ids st ! k \<and> cluster_ids st ! k \<le> clust_index st"
    using wf by (simp add: wf_state_def)
  have nonneg: "0 \<le> clust_index st" using wf by (simp add: wf_state_def)
  show ?thesis
  proof (intro allI impI)
    fix c assume c: "0 < c \<and> c \<le> clust_index ?st"
    then have c': "0 < c" "c \<le> clust_index st + 1" by (simp_all add: gstep_clust_index [OF True])
    show "\<exists>!k. k < n \<and> cluster_ids ?st ! k = c \<and> shock_types ?st ! k = 0"
    proof (cases "c = clust_index st + 1")
      case new: True
      have mem: "(k < n \<and> cluster_ids ?st ! k = c \<and> shock_types ?st ! k = 0) = (k = i)" for k
      proof (cases "k < n")
        case False
        then show ?thesis using i by auto
      next
        case k: True
        show ?thesis
          using bound [OF k] ci self new i
          by (auto simp: gstep_cluster_ids [OF k True] gstep_shock_types [OF k True])
      qed
      show ?thesis unfolding mem by simp
    next
      case old: False
      then have cold: "0 < c \<and> c \<le> clust_index st" using c' by simp
      have mem: "(k < n \<and> cluster_ids ?st ! k = c \<and> shock_types ?st ! k = 0)
               = (k < n \<and> cluster_ids st ! k = c \<and> shock_types st ! k = 0)" for k
      proof (cases "k < n")
        case False
        then show ?thesis by simp
      next
        case k: True
        show ?thesis
          using bound [OF k] ci old cold
          by (auto simp: gstep_cluster_ids [OF k True] gstep_shock_types [OF k True])
      qed
      show ?thesis unfolding mem using inv cold by blast
    qed
  qed
qed

lemma no_foreshock_fold:
  assumes "\<And>i k. W i k \<Longrightarrow> \<not> B i k" and "wf_state n st"
    and "\<forall>k<n. shock_types st ! k \<noteq> - 1"
  shows "\<forall>k<n. shock_types (fold (gstep W B n) xs st) ! k \<noteq> - 1"
proof -
  have "wf_state n (fold (gstep W B n) xs st)
        \<and> (\<forall>k<n. shock_types (fold (gstep W B n) xs st) ! k \<noteq> - 1)"
  proof (rule fold_invariant [where P = "\<lambda>s. wf_state n s \<and> (\<forall>k<n. shock_types s ! k \<noteq> - 1)"])
    show "wf_state n st \<and> (\<forall>k<n. shock_types st ! k \<noteq> - 1)" using assms by simp
  next
    fix x s assume s: "wf_state n s \<and> (\<forall>k<n. shock_types s ! k \<noteq> - 1)"
    then have "length (shock_types s) = n" by (simp add: wf_state_def)
    then show "wf_state n (gstep W B n x s) \<and> (\<forall>k<n. shock_types (gstep W B n x s) ! k \<noteq> - 1)"
      using s no_foreshock_gstep [of W B s n x] assms(1) wf_gstep by blast
  qed
  then show ?thesis by simp
qed

lemma one_mainshock_fold:
  assumes "\<forall>i\<in>set xs. i < n \<and> W i i" and "wf_state n st"
    and "\<forall>c. 0 < c \<and> c \<le> clust_index st \<longrightarrow>
           (\<exists>!k. k < n \<and> cluster_ids st ! k = c \<and> shock_types st ! k = 0)"
  shows "\<forall>c. 0 < c \<and> c \<le> clust_index (fold (gstep W B n) xs st) \<longrightarrow>
           (\<exists>!k. k < n \<and> cluster_ids (fold (gstep W B n) xs st) ! k = c
                      \<and> shock_types (fold (gstep W B n) xs st) ! k = 0)"
proof -
  let ?P = "\<lambda>s. wf_state n s \<and> (\<forall>c. 0 < c \<and> c \<le> clust_index s \<longrightarrow>
           (\<exists>!k. k < n \<and> cluster_ids s ! k = c \<and> shock_types s ! k = 0))"
  have "?P (fold (gstep W B n) xs st)"
  proof (rule fold_invariant [where P = ?P])
    show "?P st" using assms by simp
  next
    fix x s assume x: "x \<in> set xs" and s: "?P s"
    have "x < n" "W x x" using assms(1) x by auto
    then show "?P (gstep W B n x s)"
      using one_mainshock_gstep [of n s x W B] wf_gstep [of n s W B x] s by blast
  qed
  then show ?thesis by simp
qed




section \<open>The sort and the return to the original order\<close>

lemma mset_argsort: "mset (argsort v) = mset [0..<length v]"
  by (simp add: argsort_def mset_aheapsort)

lemma sorted_argsort: "sorted (map ((!) v) (argsort v))"
  by (simp add: argsort_def sorted_aheapsort)

lemma argsort_facts:
  "length (argsort v) = length v" "set (argsort v) = {0..<length v}" "distinct (argsort v)"
proof -
  have m: "mset (argsort v) = mset [0..<length v]" by (rule mset_argsort)
  show "length (argsort v) = length v" using mset_eq_length [OF m] by simp
  show "set (argsort v) = {0..<length v}" using mset_eq_setD [OF m] by simp
  show "distinct (argsort v)" using mset_eq_imp_distinct_iff [OF m] by simp
qed

lemma visiting_order_facts:
  "length (visiting_order m) = length m" "set (visiting_order m) = {0..<length m}"
  "distinct (visiting_order m)" "mset (visiting_order m) = mset [0..<length m]"
  by (simp_all add: visiting_order_def argsort_facts mset_argsort)

lemma visiting_order_nth_less: "p < length m \<Longrightarrow> visiting_order m ! p < length m"
  using visiting_order_facts(1,2) [of m] nth_mem [of p "visiting_order m"] by auto

lemma visiting_order_onto: "k < length m \<Longrightarrow> \<exists>p<length m. visiting_order m ! p = k"
proof -
  assume "k < length m"
  then have "k \<in> set (visiting_order m)" by (simp add: visiting_order_facts)
  then show ?thesis by (metis in_set_conv_nth visiting_order_facts(1))
qed

lemma eqid_visiting_order:
  "map ((!) [0..<length m]) (visiting_order m) = visiting_order m"
proof -
  have "\<forall>x\<in>set (visiting_order m). [0..<length m] ! x = x"
    by (simp add: visiting_order_facts)
  then show ?thesis by (simp add: map_idI)
qed

text \<open>The second argsort, of the permuted row numbers, is the inverse permutation.\<close>

lemma restore_order:
  "map ((!) (visiting_order m)) (argsort (visiting_order m)) = [0..<length m]"
proof -
  let ?id0 = "visiting_order m"
  let ?id1 = "argsort ?id0"
  have "mset (map ((!) ?id0) ?id1) = image_mset ((!) ?id0) (mset ?id1)"
    by (rule mset_map [symmetric, THEN sym])
  also have "\<dots> = image_mset ((!) ?id0) (mset [0..<length ?id0])"
    unfolding mset_argsort ..
  also have "\<dots> = mset (map ((!) ?id0) [0..<length ?id0])"
    by (rule mset_map [symmetric])
  also have "\<dots> = mset ?id0" by (simp add: map_nth)
  also have "\<dots> = mset [0..<length m]" by (rule visiting_order_facts)
  finally have "sort [0..<length m] = map ((!) ?id0) ?id1"
    using sorted_argsort [of ?id0] by (intro properties_for_sort) auto
  then show ?thesis by (simp add: sorted_sort_id)
qed

lemma restore_nth:
  assumes "p < length m"
  shows "argsort (visiting_order m) ! (visiting_order m ! p) = p"
    and "argsort (visiting_order m) ! (visiting_order m ! p) < length m"
proof -
  let ?id0 = "visiting_order m"
  let ?id1 = "argsort ?id0"
  have k: "?id0 ! p < length m" using assms by (rule visiting_order_nth_less)
  have l1: "length ?id1 = length m" by (simp add: argsort_facts visiting_order_facts)
  have q: "?id1 ! (?id0 ! p) < length m"
    using argsort_facts(2) [of ?id0] nth_mem [of "?id0 ! p" ?id1] k l1
    by (auto simp: visiting_order_facts)
  have "map ((!) ?id0) ?id1 ! (?id0 ! p) = [0..<length m] ! (?id0 ! p)"
    by (simp add: restore_order)
  then have "?id0 ! (?id1 ! (?id0 ! p)) = ?id0 ! p" using k l1 by simp
  then show "?id1 ! (?id0 ! p) = p"
    using q assms visiting_order_facts(1,3) [of m] by (simp add: nth_eq_iff_index_eq)
  then show "?id1 ! (?id0 ! p) < length m" using assms by simp
qed

text \<open>\<open>cluster\<close> is the loop on the sorted arrays followed by the inverse permutation.\<close>

lemma length_values_take_rows [simp]: "length (values_of (take_rows yd idx)) = length idx"
  by (cases yd) simp_all

lemma cluster_eq:
  assumes "length longitude = length magnitude" "length latitude = length magnitude"
  shows "cluster haversine config magnitude longitude latitude year_dec =
     (map ((!) (cluster_ids (loop_state haversine config magnitude longitude latitude year_dec)))
        (argsort (visiting_order magnitude)),
      map ((!) (shock_types (loop_state haversine config magnitude longitude latitude year_dec)))
        (argsort (visiting_order magnitude)))"
proof -
  let ?n = "length magnitude"
  let ?id0 = "visiting_order magnitude"
  let ?sw = "map (time_distance_window config (gk_time_cutoff config)) magnitude"
  have "fold (visit haversine (fs_time_prop config) (map ((!) longitude) ?id0)
               (map ((!) latitude) ?id0) (map ((!) (map fst ?sw)) ?id0)
               (map ((!) (map snd ?sw)) ?id0) (take_rows year_dec ?id0))
          [0..<?n - 1]
          \<lparr>cluster_ids = replicate ?n 0, shock_types = replicate ?n 0, clust_index = 0\<rparr>
        = loop_state haversine config magnitude longitude latitude year_dec"
    unfolding loop_state_def loop_W_def loop_B_def Let_def
    by (rule fold_visit_gstep) (auto simp: visiting_order_facts wf_init)
  then show ?thesis
    by (simp add: cluster_def Let_def eqid_visiting_order flip: visiting_order_def)
qed

lemma wf_loop_state:
  "wf_state (length magnitude) (loop_state haversine config magnitude longitude latitude year_dec)"
  unfolding loop_state_def by (rule wf_fold) (rule wf_init)

lemma cluster_out:
  assumes "length longitude = length magnitude" "length latitude = length magnitude"
    and "cluster haversine config magnitude longitude latitude year_dec = (cids, shocks)"
  shows "length cids = length magnitude" "length shocks = length magnitude"
    and "\<And>p. p < length magnitude \<Longrightarrow>
           cids ! (visiting_order magnitude ! p)
             = cluster_ids (loop_state haversine config magnitude longitude latitude year_dec) ! p"
    and "\<And>p. p < length magnitude \<Longrightarrow>
           shocks ! (visiting_order magnitude ! p)
             = shock_types (loop_state haversine config magnitude longitude latitude year_dec) ! p"
proof -
  let ?st = "loop_state haversine config magnitude longitude latitude year_dec"
  let ?id1 = "argsort (visiting_order magnitude)"
  have c: "cids = map ((!) (cluster_ids ?st)) ?id1" and s: "shocks = map ((!) (shock_types ?st)) ?id1"
    using cluster_eq [OF assms(1,2), of haversine config year_dec] assms(3) by simp_all
  have l1: "length ?id1 = length magnitude" by (simp add: argsort_facts visiting_order_facts)
  show "length cids = length magnitude" "length shocks = length magnitude"
    by (simp_all add: c s l1)
  fix p assume p: "p < length magnitude"
  have k: "visiting_order magnitude ! p < length magnitude"
    using p by (rule visiting_order_nth_less)
  show "cids ! (visiting_order magnitude ! p) = cluster_ids ?st ! p"
    using k l1 restore_nth(1) [OF p] by (simp add: c)
  show "shocks ! (visiting_order magnitude ! p) = shock_types ?st ! p"
    using k l1 restore_nth(1) [OF p] by (simp add: s)
qed





lemma restore_nth_inv:
  assumes "k < length m"
  shows "visiting_order m ! (argsort (visiting_order m) ! k) = k"
    and "argsort (visiting_order m) ! k < length m"
proof -
  let ?id0 = "visiting_order m"
  let ?id1 = "argsort ?id0"
  have l1: "length ?id1 = length m" by (simp add: argsort_facts visiting_order_facts)
  have "map ((!) ?id0) ?id1 ! k = [0..<length m] ! k" by (simp add: restore_order)
  then show "?id0 ! (?id1 ! k) = k" using assms l1 by simp
  show "?id1 ! k < length m"
    using argsort_facts(2) [of ?id0] nth_mem [of k ?id1] assms l1
    by (auto simp: visiting_order_facts)
qed

text \<open>With pairwise distinct magnitudes the visiting order follows a permutation of the rows.\<close>

lemma visiting_order_permuted:
  assumes dist: "distinct m" and perm: "mset p = mset [0..<length m]" and q: "q < length m"
  shows "p ! (visiting_order (map ((!) m) p) ! q) = visiting_order m ! q"
proof -
  let ?n = "length m"
  let ?m' = "map ((!) m) p"
  have lp: "length p = ?n" using mset_eq_length [OF perm] by simp
  have setp: "set p = {0..<?n}" using mset_eq_setD [OF perm] by simp
  have msm': "mset ?m' = mset m"
  proof -
    have "mset ?m' = image_mset ((!) m) (mset p)" by simp
    also have "\<dots> = image_mset ((!) m) (mset [0..<?n])" unfolding perm ..
    also have "\<dots> = mset (map ((!) m) [0..<?n])" by simp
    also have "\<dots> = mset m" by (simp add: map_nth)
    finally show ?thesis .
  qed
  have srt: "map ((!) v) (argsort v) = sort v" for v :: "real list"
  proof -
    have "mset (map ((!) v) (argsort v)) = image_mset ((!) v) (mset [0..<length v])"
      using mset_argsort [of v] by (metis mset_map)
    also have "\<dots> = mset (map ((!) v) [0..<length v])" by simp
    also have "\<dots> = mset v" by (simp add: map_nth)
    finally show ?thesis
      using sorted_argsort [of v] by (intro properties_for_sort [symmetric]) auto
  qed
  have "sort ?m' = sort m" using msm' by (intro properties_for_sort) auto
  then have eq: "map ((!) ?m') (argsort ?m') = map ((!) m) (argsort m)"
    by (simp add: srt)
  have key: "p ! (argsort ?m' ! r) = argsort m ! r" if r: "r < ?n" for r
  proof -
    have a': "argsort ?m' ! r < ?n"
      using argsort_facts(1,2) [of ?m'] nth_mem [of r "argsort ?m'"] r lp by auto
    have a: "argsort m ! r < ?n"
      using argsort_facts(1,2) [of m] nth_mem [of r "argsort m"] r by auto
    have pa: "p ! (argsort ?m' ! r) < ?n"
      using a' lp setp nth_mem [of "argsort ?m' ! r" p] by auto
    have "map ((!) ?m') (argsort ?m') ! r = map ((!) m) (argsort m) ! r" by (simp add: eq)
    then have "m ! (p ! (argsort ?m' ! r)) = m ! (argsort m ! r)"
      using r a' lp by (simp add: argsort_facts)
    then show ?thesis using dist pa a by (simp add: nth_eq_iff_index_eq)
  qed
  have "visiting_order ?m' ! q = argsort ?m' ! (?n - Suc q)"
    using q lp by (simp add: visiting_order_def rev_nth argsort_facts)
  moreover have "visiting_order m ! q = argsort m ! (?n - Suc q)"
    using q by (simp add: visiting_order_def rev_nth argsort_facts)
  ultimately show ?thesis using key [of "?n - Suc q"] q by simp
qed


lemma sorted_rows_permuted:
  assumes dist: "distinct (map ev_magnitude rs)" and perm: "mset p = mset [0..<length rs]"
  shows "map ((!) (map f (map ((!) rs) p))) (visiting_order (map ev_magnitude (map ((!) rs) p)))
         = map ((!) (map f rs)) (visiting_order (map ev_magnitude rs))"
proof (rule nth_equalityI)
  let ?m = "map ev_magnitude rs"
  let ?rs' = "map ((!) rs) p"
  have lp: "length p = length rs" using mset_eq_length [OF perm] by simp
  have setp: "set p = {0..<length rs}" using mset_eq_setD [OF perm] by simp
  have m': "map ev_magnitude ?rs' = map ((!) ?m) p"
    using setp by (auto simp: in_set_conv_nth)
  show "length (map ((!) (map f ?rs')) (visiting_order (map ev_magnitude ?rs')))
        = length (map ((!) (map f rs)) (visiting_order ?m))"
    by (simp add: visiting_order_facts lp)
  fix q assume "q < length (map ((!) (map f ?rs')) (visiting_order (map ev_magnitude ?rs')))"
  then have q: "q < length rs" by (simp add: visiting_order_facts lp)
  have a': "visiting_order (map ev_magnitude ?rs') ! q < length rs"
    using visiting_order_nth_less [of q "map ev_magnitude ?rs'"] q lp by simp
  have a: "visiting_order ?m ! q < length rs"
    using visiting_order_nth_less [of q ?m] q by simp
  have "p ! (visiting_order (map ev_magnitude ?rs') ! q) = visiting_order ?m ! q"
    using visiting_order_permuted [of ?m p q] dist perm q unfolding m' by simp
  then show "map ((!) (map f ?rs')) (visiting_order (map ev_magnitude ?rs')) ! q
             = map ((!) (map f rs)) (visiting_order ?m) ! q"
    using q a a' lp by (simp add: visiting_order_facts)
qed


section \<open>Claims about the window strategies\<close>

text \<open>
  C9. For every magnitude array the Gardner-Knopoff variant returns, elementwise, the
  space radius \<open>10^(0.1238 m + 0.983)\<close> and the time duration \<open>10^(0.032 m + 2.7389)\<close>
  where \<open>m \<ge> 6.5\<close> and \<open>10^(0.5409 m - 0.547)\<close> elsewhere: both results are a \<open>map\<close>
  over the input, so they have one entry per magnitude and no entry depends on another
  event.
\<close>

theorem gardner_knopoff_calc_elementwise:
  "calc GardnerKnopoffWindow magnitude =
     (map (\<lambda>m. 10 powr (0.1238 * m + 0.983)) magnitude,
      map (\<lambda>m. if m \<ge> 6.5 then 10 powr (0.032 * m + 2.7389)
                else 10 powr (0.5409 * m - 0.547)) magnitude)"
proof -
  have "(\<lambda>m::real. if m < 6.5 then 10 powr (0.5409 * m - 0.547) else 10 powr (0.032 * m + 2.7389))
      = (\<lambda>m. if m \<ge> 6.5 then 10 powr (0.032 * m + 2.7389) else 10 powr (0.5409 * m - 0.547))"
    by (rule ext) simp
  then show ?thesis
    by (simp add: mask_assign_map Let_def)
qed

text \<open>
  C4. For each of the three variants, every magnitude array and every cutoff, the wrapper
  returns as many durations as the variant formula, each at most the unclamped duration;
  with no cutoff configured the durations are the unclamped ones.
\<close>

theorem call_clamp_only_shortens:
  "length (snd (call \<lparr>window_class = k, time_cutoff = c\<rparr> magnitude))
     = length (snd (calc k magnitude)) \<and>
   (\<forall>i < length (snd (calc k magnitude)).
      days (snd (call \<lparr>window_class = k, time_cutoff = c\<rparr> magnitude) ! i)
        \<le> snd (calc k magnitude) ! i) \<and>
   map days (snd (call \<lparr>window_class = k, time_cutoff = None\<rparr> magnitude))
     = snd (calc k magnitude)"
proof -
  obtain sp tm where st: "calc k magnitude = (sp, tm)" by (cases "calc k magnitude")
  have pos: "\<And>i. i < length tm \<Longrightarrow> 0 < tm ! i"
    using calc_positive [of _ k magnitude] st by (metis nth_mem snd_conv)
  show ?thesis
    using pos by (cases c) (auto simp: call_def st clip_def comp_def)
qed

theorem call_clamp_only_shortens_witness:
  "days (snd (call \<lparr>window_class = UhrhammerWindow, time_cutoff = Some 1\<rparr> [3]) ! 0)
     \<le> snd (calc UhrhammerWindow [3]) ! 0"
  using call_clamp_only_shortens [of UhrhammerWindow "Some 1" "[3]"] by simp

text \<open>
  C10. A window constructed with \<open>time_cutoff = 0\<close> returns exactly what a window
  constructed without cutoff returns, and that is the output of the variant formula with
  every duration left unclamped: zero is treated as unset, nothing is clamped to zero.
\<close>

theorem call_zero_cutoff_is_no_cutoff:
  "call \<lparr>window_class = k, time_cutoff = Some 0\<rparr> magnitude
     = call \<lparr>window_class = k, time_cutoff = None\<rparr> magnitude \<and>
   call \<lparr>window_class = k, time_cutoff = Some 0\<rparr> magnitude
     = (fst (calc k magnitude), map Timedelta (snd (calc k magnitude))) \<and>
   map days (snd (call \<lparr>window_class = k, time_cutoff = Some 0\<rparr> magnitude))
     = snd (calc k magnitude)"
  by (simp add: call_def split_beta comp_def)


section \<open>Claims about the declustering engine\<close>

lemma decluster_Inr:
  assumes "decluster decimal_year haversine catalogue config = Inr r"
  obtains year_dec where
    "r = cluster haversine config (map ev_magnitude (rows catalogue))
           (map ev_longitude (rows catalogue)) (map ev_latitude (rows catalogue)) year_dec"
  using assms by (auto simp: decluster_def Let_def split: if_splits)

lemmas sample_defs = decluster_def cluster_def visit_def Let_def mask_fill_def
  ymd_catalogue_def quake_def sample_config_def fixed_window_def
  decimal_year_spec_def haversine_spec_def argsort_def aheapsort_def sift.simps

text \<open>
  C1 (as stated, refuted). The engine sorts with \<open>np.argsort(magnitude, kind="heapsort")\<close>,
  which is not stable. For two rows of equal magnitude the reversed heapsort order visits
  row 0 and then row 1, where the reverse of a stable ascending argsort visits row 1 and
  then row 0.
\<close>

theorem visiting_order_not_stable_reverse:
  "rev (argsort [1::real, 1]) = [0, 1] \<and> rev (stable_argsort [1, 1]) = [1, 0]"
  by (simp add: argsort_def aheapsort_def sift.simps stable_argsort_def Let_def)

text \<open>
  C1 (amended). For every magnitude array the visiting order \<open>id0\<close>, the reverse of the
  heapsort argsort, is a permutation of the row numbers along which the magnitudes never
  increase. Nothing is promised on the order among rows of equal magnitude.
\<close>

theorem visiting_order_descending:
  "mset (rev (argsort magnitude)) = mset [0..<length magnitude] \<and>
   sorted (rev (map ((!) magnitude) (rev (argsort magnitude))))"
  by (simp add: mset_argsort sorted_argsort rev_map)

text \<open>
  C3. \<open>decluster\<close> raises the \<open>ValueError\<close> exactly when the catalogue has neither all of
  the columns year, month and day nor a column time; it then returns no arrays. In every
  other case it returns the two arrays, one entry per row.
\<close>

theorem schema_error_iff:
  "(decluster decimal_year haversine catalogue config
      = Inl (ValueError ''Catalogue must contain either year, month, day columns or a time column''))
     = (\<not> (''year'' \<in> set (columns catalogue) \<and> ''month'' \<in> set (columns catalogue)
           \<and> ''day'' \<in> set (columns catalogue))
        \<and> ''time'' \<notin> set (columns catalogue)) \<and>
   ((\<exists>e. decluster decimal_year haversine catalogue config = Inl e)
     = (\<not> (''year'' \<in> set (columns catalogue) \<and> ''month'' \<in> set (columns catalogue)
           \<and> ''day'' \<in> set (columns catalogue))
        \<and> ''time'' \<notin> set (columns catalogue))) \<and>
   ((\<exists>cids shocks. decluster decimal_year haversine catalogue config = Inr (cids, shocks)
        \<and> length cids = length (rows catalogue) \<and> length shocks = length (rows catalogue))
     = (\<not> (\<not> (''year'' \<in> set (columns catalogue) \<and> ''month'' \<in> set (columns catalogue)
           \<and> ''day'' \<in> set (columns catalogue))
        \<and> ''time'' \<notin> set (columns catalogue))))"
proof -
  have len: "length (fst (cluster haversine config (map ev_magnitude (rows catalogue))
                 (map ev_longitude (rows catalogue)) (map ev_latitude (rows catalogue)) yd))
             = length (rows catalogue) \<and>
             length (snd (cluster haversine config (map ev_magnitude (rows catalogue))
                 (map ev_longitude (rows catalogue)) (map ev_latitude (rows catalogue)) yd))
             = length (rows catalogue)" for yd
    by (simp add: cluster_eq argsort_facts visiting_order_facts)
  show ?thesis
    using len by (auto simp: decluster_def Let_def prod_eq_iff)
qed

theorem schema_error_iff_witness:
  "decluster decimal_year_spec haversine_spec
     \<lparr>columns = [''magnitude'', ''longitude'', ''latitude'', ''year''], rows = [quake 5 2000]\<rparr>
     (sample_config 1)
   = Inl (ValueError ''Catalogue must contain either year, month, day columns or a time column'')"
  using schema_error_iff [of decimal_year_spec haversine_spec
     "\<lparr>columns = [''magnitude'', ''longitude'', ''latitude'', ''year''], rows = [quake 5 2000]\<rparr>"
     "sample_config 1"]
  by simp

text \<open>
  C8. Whenever \<open>decluster\<close> succeeds, every row whose cluster id is 0 has shock type 0.
\<close>

theorem unclustered_has_shock_type_zero:
  assumes "decluster decimal_year haversine catalogue config = Inr (cids, shocks)"
  shows "length cids = length (rows catalogue) \<and> length shocks = length (rows catalogue) \<and>
         (\<forall>k < length (rows catalogue). cids ! k = 0 \<longrightarrow> shocks ! k = 0)"
proof -
  let ?m = "map ev_magnitude (rows catalogue)"
  obtain yd where r: "cluster haversine config ?m (map ev_longitude (rows catalogue))
                        (map ev_latitude (rows catalogue)) yd = (cids, shocks)"
    using decluster_Inr [OF assms] by metis
  note out = cluster_out [OF _ _ r, simplified]
  let ?st = "loop_state haversine config ?m (map ev_longitude (rows catalogue))
               (map ev_latitude (rows catalogue)) yd"
  have wf: "wf_state (length (rows catalogue)) ?st"
    using wf_loop_state [of ?m haversine config] by simp
  have "cids ! k = 0 \<longrightarrow> shocks ! k = 0" if k: "k < length (rows catalogue)" for k
  proof -
    obtain p where p: "p < length (rows catalogue)" "visiting_order ?m ! p = k"
      using visiting_order_onto [of k ?m] k by auto
    show ?thesis
      using out(3,4) [OF p(1)] p wf unfolding wf_state_def by auto
  qed
  then show ?thesis using out(1,2) by simp
qed

theorem unclustered_has_shock_type_zero_witness:
  "decluster decimal_year_spec haversine_spec
     (ymd_catalogue [quake 5 2000, quake 4 2001, quake 3 2010]) (sample_config 1)
     = Inr ([1, 1, 0], [0, 1, 0]) \<and>
   [1, 1, 0 :: int] ! 2 = 0 \<and> [0, 1, 0 :: int] ! 2 = 0"
proof -
  have run: "decluster decimal_year_spec haversine_spec
     (ymd_catalogue [quake 5 2000, quake 4 2001, quake 3 2010]) (sample_config 1)
     = Inr ([1, 1, 0], [0, 1, 0])"
    by (simp add: sample_defs)
  show ?thesis using unclustered_has_shock_type_zero [OF run] run by simp
qed

text \<open>
  C6. With \<open>fs_time_prop = 0\<close> no row of the returned shock types is \<open>-1\<close>: every entry
  is 0 or 1.
\<close>

theorem no_foreshock_when_fs_time_prop_zero:
  assumes "decluster decimal_year haversine catalogue config = Inr (cids, shocks)"
    and "fs_time_prop config = 0"
  shows "length shocks = length (rows catalogue) \<and>
         (\<forall>k < length (rows catalogue). shocks ! k \<noteq> - 1 \<and> (shocks ! k = 0 \<or> shocks ! k = 1))"
proof -
  let ?m = "map ev_magnitude (rows catalogue)"
  let ?lo = "map ev_longitude (rows catalogue)"
  let ?la = "map ev_latitude (rows catalogue)"
  let ?n = "length (rows catalogue)"
  obtain yd where r: "cluster haversine config ?m ?lo ?la yd = (cids, shocks)"
    using decluster_Inr [OF assms(1)] by metis
  note out = cluster_out [OF _ _ r, simplified]
  let ?st = "loop_state haversine config ?m ?lo ?la yd"
  have wf: "wf_state ?n ?st"
    using wf_loop_state [of ?m haversine config] by simp
  have WB: "\<not> loop_B ?m yd i k" if "loop_W haversine config ?m ?lo ?la yd i k" for i k
    using that assms(2) by (simp add: loop_W_def loop_B_def Let_def inwin_def before_def)
  have nf: "\<forall>k<?n. shock_types ?st ! k \<noteq> - 1"
    using no_foreshock_fold [of "loop_W haversine config ?m ?lo ?la yd" "loop_B ?m yd" ?n
        "\<lparr>cluster_ids = replicate ?n 0, shock_types = replicate ?n 0, clust_index = 0\<rparr>"
        "[0..<?n - 1]"]
      WB wf_init [of ?n]
    by (simp add: loop_state_def)
  have "shocks ! k \<noteq> - 1 \<and> (shocks ! k = 0 \<or> shocks ! k = 1)" if k: "k < ?n" for k
  proof -
    obtain p where p: "p < ?n" "visiting_order ?m ! p = k"
      using visiting_order_onto [of k ?m] k by auto
    show ?thesis
      using out(4) [OF p(1)] p nf wf unfolding wf_state_def by auto
  qed
  then show ?thesis using out(2) by simp
qed

theorem no_foreshock_when_fs_time_prop_zero_witness:
  "decluster decimal_year_spec haversine_spec
     (ymd_catalogue [quake 5 2001, quake 4 2000, quake 3 2002]) (sample_config 0)
     = Inr ([1, 0, 1], [0, 0, 1]) \<and>
   fs_time_prop (sample_config 0) = 0 \<and> [0, 0, 1 :: int] ! 1 \<noteq> - 1"
proof -
  have run: "decluster decimal_year_spec haversine_spec
     (ymd_catalogue [quake 5 2001, quake 4 2000, quake 3 2002]) (sample_config 0)
     = Inr ([1, 0, 1], [0, 0, 1])"
    by (simp add: sample_defs)
  have fs: "fs_time_prop (sample_config 0) = 0" by (simp add: sample_config_def)
  show ?thesis using no_foreshock_when_fs_time_prop_zero [OF run fs] run fs by simp
qed

lemma decluster_ymd:
  assumes "''year'' \<in> set (columns catalogue) \<and> ''month'' \<in> set (columns catalogue)
           \<and> ''day'' \<in> set (columns catalogue)"
  shows "decluster decimal_year haversine catalogue config =
     Inr (cluster haversine config (map ev_magnitude (rows catalogue))
            (map ev_longitude (rows catalogue)) (map ev_latitude (rows catalogue))
            (NdArray (map (\<lambda>r. decimal_year (ev_year r) (ev_month r) (ev_day r)) (rows catalogue))))"
  using assms by (simp add: decluster_def Let_def)

text \<open>The window test on the sorted arrays, in terms of the rows, for a NumPy array of years.\<close>

lemma loop_W_ymd:
  assumes "i < length rs" "k < length rs"
  shows "loop_W haversine config (map ev_magnitude rs) (map ev_longitude rs) (map ev_latitude rs)
           (NdArray (map yr rs)) i k =
     (let a = rs ! (visiting_order (map ev_magnitude rs) ! i);
          b = rs ! (visiting_order (map ev_magnitude rs) ! k);
          w = time_distance_window config (gk_time_cutoff config) (ev_magnitude a)
      in (yr b - yr a \<ge> (- snd w) * fs_time_prop config \<and> yr b - yr a \<le> snd w) \<and>
         haversine (ev_longitude b) (ev_latitude b) (ev_longitude a) (ev_latitude a) \<le> fst w)"
proof -
  let ?id0 = "visiting_order (map ev_magnitude rs)"
  have l: "length ?id0 = length rs" by (simp add: visiting_order_facts)
  have a: "?id0 ! i < length rs" "?id0 ! k < length rs"
    using assms visiting_order_nth_less [of _ "map ev_magnitude rs"] by simp_all
  show ?thesis
    using assms a l by (simp add: loop_W_def inwin_def Let_def)
qed

text \<open>
  C2 (as stated, refuted). The configuration is not validated: with \<open>fs_time_prop = -1/2\<close>
  the time window of the seed, here from 1 to 2 years after it, does not contain the seed
  itself. The second row is selected and becomes a cluster of its own, with shock type 1;
  the seed keeps cluster id 0, and cluster 1 has no member of shock type 0.
\<close>

theorem cluster_without_mainshock:
  "decluster decimal_year_spec haversine_spec
     (ymd_catalogue [quake 5 2000, quake 4 2001]) (sample_config (- 1 / 2))
   = Inr ([0, 1], [0, 1])"
  by (simp add: sample_defs)

text \<open>
  C2 (amended). For a catalogue with the columns year, month and day, and a configuration
  with \<open>fs_time_prop \<ge> 0\<close> whose windows have a non-negative duration and a radius that
  reaches the event's own location, every cluster id greater than 0 in the returned
  \<open>cluster_ids\<close> has exactly one member of shock type 0.
\<close>

theorem one_mainshock_per_cluster:
  assumes run: "decluster decimal_year haversine catalogue config = Inr (cids, shocks)"
    and ymd: "''year'' \<in> set (columns catalogue) \<and> ''month'' \<in> set (columns catalogue)
              \<and> ''day'' \<in> set (columns catalogue)"
    and fs: "0 \<le> fs_time_prop config"
    and win: "\<forall>r \<in> set (rows catalogue).
                0 \<le> snd (time_distance_window config (gk_time_cutoff config) (ev_magnitude r)) \<and>
                haversine (ev_longitude r) (ev_latitude r) (ev_longitude r) (ev_latitude r)
                  \<le> fst (time_distance_window config (gk_time_cutoff config) (ev_magnitude r))"
  shows "\<forall>c. 0 < c \<and> c \<in> set cids \<longrightarrow>
           (\<exists>!k. k < length cids \<and> cids ! k = c \<and> shocks ! k = 0)"
proof -
  let ?rs = "rows catalogue"
  let ?m = "map ev_magnitude ?rs"
  let ?lo = "map ev_longitude ?rs"
  let ?la = "map ev_latitude ?rs"
  let ?yr = "\<lambda>r. decimal_year (ev_year r) (ev_month r) (ev_day r)"
  let ?yd = "NdArray (map ?yr ?rs)"
  let ?n = "length ?rs"
  let ?W = "loop_W haversine config ?m ?lo ?la ?yd"
  let ?st = "loop_state haversine config ?m ?lo ?la ?yd"
  let ?id0 = "visiting_order ?m"
  have r: "cluster haversine config ?m ?lo ?la ?yd = (cids, shocks)"
    using run decluster_ymd [OF ymd, of decimal_year haversine config] by simp
  note out = cluster_out [OF _ _ r, simplified]
  have wf: "wf_state ?n ?st" using wf_loop_state [of ?m haversine config] by simp
  have self: "?W i i" if i: "i < ?n" for i
  proof -
    have "?id0 ! i < ?n" using visiting_order_nth_less [of i ?m] i by simp
    then have "?rs ! (?id0 ! i) \<in> set ?rs" by simp
    then have w: "0 \<le> snd (time_distance_window config (gk_time_cutoff config)
                           (ev_magnitude (?rs ! (?id0 ! i))))"
      "haversine (ev_longitude (?rs ! (?id0 ! i))) (ev_latitude (?rs ! (?id0 ! i)))
         (ev_longitude (?rs ! (?id0 ! i))) (ev_latitude (?rs ! (?id0 ! i)))
       \<le> fst (time_distance_window config (gk_time_cutoff config)
                (ev_magnitude (?rs ! (?id0 ! i))))"
      using win by blast+
    have "(- snd (time_distance_window config (gk_time_cutoff config)
                   (ev_magnitude (?rs ! (?id0 ! i))))) * fs_time_prop config \<le> 0"
      using w(1) fs by (simp add: mult_nonneg_nonneg)
    then show ?thesis
      using w by (simp add: loop_W_ymd [OF i i] Let_def)
  qed
  have inv: "\<forall>c. 0 < c \<and> c \<le> clust_index ?st \<longrightarrow>
           (\<exists>!k. k < ?n \<and> cluster_ids ?st ! k = c \<and> shock_types ?st ! k = 0)"
    unfolding loop_state_def length_map
    by (rule one_mainshock_fold) (use self wf_init [of ?n] in auto)
  show ?thesis
  proof (intro allI impI)
    fix c assume c: "0 < c \<and> c \<in> set cids"
    then obtain k0 where k0: "k0 < ?n" "cids ! k0 = c"
      using out(1) by (metis in_set_conv_nth)
    obtain p0 where p0: "p0 < ?n" "?id0 ! p0 = k0"
      using visiting_order_onto [of k0 ?m] k0 by auto
    have "cluster_ids ?st ! p0 = c" using out(3) [OF p0(1)] p0 k0 by simp
    then have "c \<le> clust_index ?st" using wf p0 unfolding wf_state_def by auto
    then obtain p where p: "p < ?n" "cluster_ids ?st ! p = c" "shock_types ?st ! p = 0"
      and uniq: "\<And>q. q < ?n \<Longrightarrow> cluster_ids ?st ! q = c \<Longrightarrow> shock_types ?st ! q = 0 \<Longrightarrow> q = p"
      using inv c by blast
    show "\<exists>!k. k < length cids \<and> cids ! k = c \<and> shocks ! k = 0"
    proof (rule ex1I [of _ "?id0 ! p"])
      show "?id0 ! p < length cids \<and> cids ! (?id0 ! p) = c \<and> shocks ! (?id0 ! p) = 0"
        using out(1) out(3,4) [OF p(1)] p visiting_order_nth_less [of p ?m] by simp
    next
      fix k assume k: "k < length cids \<and> cids ! k = c \<and> shocks ! k = 0"
      then obtain q where q: "q < ?n" "?id0 ! q = k"
        using visiting_order_onto [of k ?m] out(1) by auto
      have "q = p" using uniq [OF q(1)] out(3,4) [OF q(1)] q k by simp
      then show "k = ?id0 ! p" using q by simp
    qed
  qed
qed

theorem one_mainshock_per_cluster_witness:
  "decluster decimal_year_spec haversine_spec
     (ymd_catalogue [quake 5 2000, quake 4 2001, quake 3 2010]) (sample_config 1)
     = Inr ([1, 1, 0], [0, 1, 0]) \<and>
   0 \<le> fs_time_prop (sample_config 1) \<and>
   (\<exists>!k. k < length [1, 1, 0 :: int] \<and> [1, 1, 0 :: int] ! k = 1 \<and> [0, 1, 0 :: int] ! k = 0)"
proof -
  let ?cat = "ymd_catalogue [quake 5 2000, quake 4 2001, quake 3 2010]"
  have run: "decluster decimal_year_spec haversine_spec ?cat (sample_config 1)
     = Inr ([1, 1, 0], [0, 1, 0])"
    by (simp add: sample_defs)
  have ymd: "''year'' \<in> set (columns ?cat) \<and> ''month'' \<in> set (columns ?cat)
              \<and> ''day'' \<in> set (columns ?cat)"
    by (simp add: ymd_catalogue_def)
  have fs: "0 \<le> fs_time_prop (sample_config 1)" by (simp add: sample_config_def)
  have win: "\<forall>r \<in> set (rows ?cat).
                0 \<le> snd (time_distance_window (sample_config 1) (gk_time_cutoff (sample_config 1))
                          (ev_magnitude r)) \<and>
                haversine_spec (ev_longitude r) (ev_latitude r) (ev_longitude r) (ev_latitude r)
                  \<le> fst (time_distance_window (sample_config 1) (gk_time_cutoff (sample_config 1))
                          (ev_magnitude r))"
    by (simp add: ymd_catalogue_def sample_config_def fixed_window_def haversine_spec_def quake_def)
  show ?thesis
    using one_mainshock_per_cluster [OF run ymd fs win] run fs by simp
qed



text \<open>
  The same three events, once with a time column and once with the columns year, month and
  day. With the time column the first seed, the event of 2010 at position 0, is compared
  through the year labelled 0, the year 2000 of row 0: the events of 2000 and 2001 are
  selected and the seed is not, so cluster 1 has two aftershocks and no mainshock. With
  year, month and day the event of 2000 is the mainshock of the event of 2001.
\<close>

lemma time_column_reference_by_label:
  "decluster decimal_year_spec haversine_spec
     \<lparr>columns = [''magnitude'', ''longitude'', ''latitude'', ''time''],
      rows = [quake 4 2000, quake 5 2010, quake 3 2001]\<rparr> (sample_config 1)
     = Inr ([1, 0, 1], [1, 0, 1]) \<and>
   decluster decimal_year_spec haversine_spec
     (ymd_catalogue [quake 4 2000, quake 5 2010, quake 3 2001]) (sample_config 1)
     = Inr ([1, 0, 1], [0, 0, 1])"
  by (simp add: sample_defs)



text \<open>
  C5 (as stated, refuted). Two rows of equal magnitude are visited in the order the heapsort
  leaves them, which depends on the order of the rows. With the event of 2000 first it is
  the seed and the event of 2001 its aftershock; with the rows exchanged the event of 2001
  is the seed and the event of 2000 its foreshock. The associations of the two runs differ.
\<close>

theorem tie_order_breaks_equivariance:
  "decluster decimal_year_spec haversine_spec
     (ymd_catalogue [quake 5 2000, quake 5 2001]) (sample_config 1) = Inr ([1, 1], [0, 1]) \<and>
   decluster decimal_year_spec haversine_spec
     (ymd_catalogue [quake 5 2001, quake 5 2000]) (sample_config 1) = Inr ([1, 1], [0, - 1])"
  by (simp add: sample_defs)

text \<open>
  C5 (amended). For a catalogue with the columns year, month and day whose magnitudes are
  pairwise distinct, permuting the rows permutes both returned arrays in the same way:
  every event keeps its cluster id and its shock type.
\<close>

theorem permutation_equivariance_distinct:
  assumes ymd: "''year'' \<in> set (columns catalogue) \<and> ''month'' \<in> set (columns catalogue)
                \<and> ''day'' \<in> set (columns catalogue)"
    and dist: "distinct (map ev_magnitude (rows catalogue))"
    and perm: "mset p = mset [0..<length (rows catalogue)]"
    and run: "decluster decimal_year haversine catalogue config = Inr (cids, shocks)"
  shows "decluster decimal_year haversine (catalogue\<lparr>rows := map ((!) (rows catalogue)) p\<rparr>) config
         = Inr (map ((!) cids) p, map ((!) shocks) p)"
proof -
  let ?rs = "rows catalogue"
  let ?rs' = "map ((!) ?rs) p"
  let ?n = "length ?rs"
  let ?yr = "\<lambda>r. decimal_year (ev_year r) (ev_month r) (ev_day r)"
  let ?m = "map ev_magnitude ?rs" and ?m' = "map ev_magnitude ?rs'"
  let ?lo = "map ev_longitude ?rs" and ?lo' = "map ev_longitude ?rs'"
  let ?la = "map ev_latitude ?rs" and ?la' = "map ev_latitude ?rs'"
  let ?yd = "NdArray (map ?yr ?rs)" and ?yd' = "NdArray (map ?yr ?rs')"
  let ?id0 = "visiting_order ?m" and ?id0' = "visiting_order ?m'"
  let ?st = "loop_state haversine config ?m ?lo ?la ?yd"
  let ?st' = "loop_state haversine config ?m' ?lo' ?la' ?yd'"
  have lp: "length p = ?n" using mset_eq_length [OF perm] by simp
  have setp: "set p = {0..<?n}" using mset_eq_setD [OF perm] by simp
  have m'eq: "?m' = map ((!) ?m) p" using setp by (auto simp: in_set_conv_nth)
  note srt = sorted_rows_permuted [OF dist perm]
  have r: "cluster haversine config ?m ?lo ?la ?yd = (cids, shocks)"
    using run decluster_ymd [OF ymd, of decimal_year haversine config] by simp
  note out = cluster_out [OF _ _ r, simplified]
  have W: "loop_W haversine config ?m' ?lo' ?la' ?yd' = loop_W haversine config ?m ?lo ?la ?yd"
    unfolding loop_W_def Let_def take_rows.simps map_map
    using srt [of ev_longitude] srt [of ev_latitude] srt [of ?yr]
      srt [of "fst \<circ> (time_distance_window config (gk_time_cutoff config) \<circ> ev_magnitude)"]
      srt [of "snd \<circ> (time_distance_window config (gk_time_cutoff config) \<circ> ev_magnitude)"]
    by (simp add: comp_def)
  have B: "loop_B ?m' ?yd' = loop_B ?m ?yd"
    unfolding loop_B_def take_rows.simps using srt [of ?yr] by simp
  have st: "?st' = ?st"
    unfolding loop_state_def W B by (simp add: lp)
  have r': "cluster haversine config ?m' ?lo' ?la' ?yd'
            = (map ((!) (cluster_ids ?st)) (argsort ?id0'), map ((!) (shock_types ?st)) (argsort ?id0'))"
  proof -
    have "cluster haversine config ?m' ?lo' ?la' ?yd'
            = (map ((!) (cluster_ids ?st')) (argsort ?id0'),
               map ((!) (shock_types ?st')) (argsort ?id0'))"
      by (rule cluster_eq) simp_all
    then show ?thesis by (simp only: st)
  qed
  have l1': "length (argsort ?id0') = ?n"
    by (simp add: argsort_facts visiting_order_facts lp)
  have idx: "argsort ?id0' ! k < ?n \<and> ?id0 ! (argsort ?id0' ! k) = p ! k" if k: "k < ?n" for k
  proof -
    have k': "k < length ?m'" using k lp by simp
    have q: "argsort ?id0' ! k < ?n" using restore_nth_inv(2) [OF k'] lp by simp
    have "?id0' ! (argsort ?id0' ! k) = k" using restore_nth_inv(1) [OF k'] .
    then have "p ! k = ?id0 ! (argsort ?id0' ! k)"
      using visiting_order_permuted [of ?m p "argsort ?id0' ! k"] dist perm q
      unfolding m'eq by simp
    then show ?thesis using q by simp
  qed
  have c: "map ((!) (cluster_ids ?st)) (argsort ?id0') = map ((!) cids) p"
  proof (rule nth_equalityI)
    show "length (map ((!) (cluster_ids ?st)) (argsort ?id0')) = length (map ((!) cids) p)"
      using l1' lp by simp
    fix k assume "k < length (map ((!) (cluster_ids ?st)) (argsort ?id0'))"
    then have k: "k < ?n" using l1' by simp
    show "map ((!) (cluster_ids ?st)) (argsort ?id0') ! k = map ((!) cids) p ! k"
      using idx [OF k] out(3) [of "argsort ?id0' ! k"] k l1' lp by simp
  qed
  have s: "map ((!) (shock_types ?st)) (argsort ?id0') = map ((!) shocks) p"
  proof (rule nth_equalityI)
    show "length (map ((!) (shock_types ?st)) (argsort ?id0')) = length (map ((!) shocks) p)"
      using l1' lp by simp
    fix k assume "k < length (map ((!) (shock_types ?st)) (argsort ?id0'))"
    then have k: "k < ?n" using l1' by simp
    show "map ((!) (shock_types ?st)) (argsort ?id0') ! k = map ((!) shocks) p ! k"
      using idx [OF k] out(4) [of "argsort ?id0' ! k"] k l1' lp by simp
  qed
  have ymd': "''year'' \<in> set (columns (catalogue\<lparr>rows := ?rs'\<rparr>))
              \<and> ''month'' \<in> set (columns (catalogue\<lparr>rows := ?rs'\<rparr>))
              \<and> ''day'' \<in> set (columns (catalogue\<lparr>rows := ?rs'\<rparr>))"
    using ymd by simp
  show ?thesis
    using decluster_ymd [OF ymd', of decimal_year haversine config] r' c s by simp
qed

theorem permutation_equivariance_distinct_witness:
  "decluster decimal_year_spec haversine_spec
     (ymd_catalogue [quake 5 2000, quake 4 2001, quake 3 2010]) (sample_config 1)
     = Inr ([1, 1, 0], [0, 1, 0]) \<and>
   distinct (map ev_magnitude [quake 5 2000, quake 4 2001, quake 3 2010]) \<and>
   decluster decimal_year_spec haversine_spec
     (ymd_catalogue [quake 3 2010, quake 5 2000, quake 4 2001]) (sample_config 1)
     = Inr ([0, 1, 1], [0, 0, 1])"
proof -
  let ?cat = "ymd_catalogue [quake 5 2000, quake 4 2001, quake 3 2010]"
  have run: "decluster decimal_year_spec haversine_spec ?cat (sample_config 1)
     = Inr ([1, 1, 0], [0, 1, 0])"
    by (simp add: sample_defs)
  have ymd: "''year'' \<in> set (columns ?cat) \<and> ''month'' \<in> set (columns ?cat)
              \<and> ''day'' \<in> set (columns ?cat)"
    by (simp add: ymd_catalogue_def)
  have dist: "distinct (map ev_magnitude (rows ?cat))"
    by (simp add: ymd_catalogue_def quake_def)
  have perm: "mset [2, 0, 1 :: nat] = mset [0..<length (rows ?cat)]"
    by (simp add: ymd_catalogue_def upt_rec)
  have "?cat\<lparr>rows := map ((!) (rows ?cat)) [2, 0, 1]\<rparr>
        = ymd_catalogue [quake 3 2010, quake 5 2000, quake 4 2001]"
    by (simp add: ymd_catalogue_def)
  then show ?thesis
    using permutation_equivariance_distinct [OF ymd dist perm run] run dist
    by (simp add: ymd_catalogue_def)
qed


end
